theory Spec2Isabelle
  imports Main "HOL-Library.Word" "HOL-Library.Extended_Nat"
begin

section \<open>Common types\<close>

text \<open>
  \<open>page_id_t\<close> and \<open>frame_id_t\<close> are C++ \<open>int\<close>; they are modelled as \<open>int\<close>
  (no operation below comes near the 32-bit bounds). \<open>INVALID_PAGE_ID\<close> is \<open>-1\<close>.
  A failed \<open>BUSTUB_ASSERT\<close> and a step that C++ leaves undefined (\<open>front()\<close> of an
  empty queue, a read before an array, a mutex locked twice by one thread) are values
  of the type \<open>error\<close>; every operation that can hit one returns \<open>error + result\<close>, with
  \<open>Inl\<close> for the error. Apart from that the mutexes are not modelled: every operation
  is taken as one atomic step, which is what the latch gives.
\<close>

type_synonym page_id_t = int
type_synonym frame_id_t = int

datatype error = AssertionFailed | UndefinedBehaviour

definition INVALID_PAGE_ID :: page_id_t where
  "INVALID_PAGE_ID = -1"

section \<open>The LRU-K replacer (lru\_k\_replacer.cpp)\<close>

text \<open>
  \<open>frameRecords\<close> maps a frame to the queue of its recorded timestamps (front of the
  queue first). The loop of \<open>Evict\<close> iterates over this container, so it is an
  association list in the container's iteration order; no theorem below depends on the
  order. \<open>frameEvictable\<close> maps a frame to its flag. \<open>maxTimestamp\<close> is a constant of the
  header, which is not part of the sources: it is a field of the record, a parameter.
  \<open>evictableNum\<close> is a \<open>size_t\<close> that is decremented, so it is a 64-bit word.
\<close>

record LRUKReplacer =
  replacer_size :: nat
  lruk_k :: nat
  current_timestamp :: nat
  maxTimestamp :: nat
  frameRecords :: "(frame_id_t \<times> nat list) list"
  frameEvictable :: "frame_id_t \<rightharpoonup> bool"
  evictableNum :: "64 word"

text \<open>The state of the loop in \<open>Evict\<close>: \<open>minTime\<close>, \<open>findLessKFrame\<close>, the
  out-parameter \<open>*frame_id\<close>, and \<open>frameEvictable\<close> (which \<open>operator[]\<close> extends with
  \<open>false\<close> when it reads a missing key).\<close>

type_synonym evict_state = "nat \<times> bool \<times> frame_id_t \<times> (frame_id_t \<rightharpoonup> bool)"

definition Evict_body :: "nat \<Rightarrow> frame_id_t \<times> nat list \<Rightarrow> evict_state \<Rightarrow> error + evict_state" where
  "Evict_body k it st =
     (case st of (minTime, findLessKFrame, frame_id, ev) \<Rightarrow>
        (case ev (fst it) of
           None \<Rightarrow> Inr (minTime, findLessKFrame, frame_id, ev(fst it \<mapsto> False))
         | Some False \<Rightarrow> Inr st
         | Some True \<Rightarrow>
             (case snd it of
                [] \<Rightarrow> Inl UndefinedBehaviour
              | front # _ \<Rightarrow>
                  if length (snd it) < k then
                    (if \<not> findLessKFrame \<or> front < minTime
                     then Inr (front, True, fst it, ev)
                     else Inr st)
                  else if \<not> findLessKFrame then
                    (if front < minTime then Inr (front, findLessKFrame, fst it, ev) else Inr st)
                  else Inr st)))"

fun Evict_loop :: "nat \<Rightarrow> (frame_id_t \<times> nat list) list \<Rightarrow> evict_state \<Rightarrow> error + evict_state" where
  "Evict_loop k [] st = Inr st"
| "Evict_loop k (it # its) st =
     (case Evict_body k it st of
        Inl e \<Rightarrow> Inl e
      | Inr st' \<Rightarrow> Evict_loop k its st')"

definition Remove :: "LRUKReplacer \<Rightarrow> frame_id_t \<Rightarrow> error + LRUKReplacer" where
  "Remove r frame_id =
     (case frameEvictable r frame_id of
        None \<Rightarrow> Inr r
      | Some False \<Rightarrow> Inl AssertionFailed
      | Some True \<Rightarrow>
          Inr (r\<lparr>frameRecords := filter (\<lambda>it. fst it \<noteq> frame_id) (frameRecords r),
                 frameEvictable := (frameEvictable r)(frame_id := None),
                 evictableNum := evictableNum r - 1\<rparr>))"

text \<open>\<open>Evict r frame_id\<close> takes the value the caller's out-parameter holds and returns
  the flag, the out-parameter and the replacer.\<close>

definition Evict :: "LRUKReplacer \<Rightarrow> frame_id_t \<Rightarrow> error + (bool \<times> frame_id_t \<times> LRUKReplacer)" where
  "Evict r frame_id =
     (case Evict_loop (lruk_k r) (frameRecords r) (maxTimestamp r, False, frame_id, frameEvictable r) of
        Inl e \<Rightarrow> Inl e
      | Inr (minTime, findLessKFrame, fid, ev) \<Rightarrow>
          if minTime = maxTimestamp r then Inr (False, fid, r\<lparr>frameEvictable := ev\<rparr>)
          else (case Remove (r\<lparr>frameEvictable := ev\<rparr>) fid of
                  Inl e \<Rightarrow> Inl e
                | Inr r' \<Rightarrow> Inr (True, fid, r')))"

text \<open>\<open>unsigned(frame_id)\<close> of a 32-bit \<open>int\<close>.\<close>

definition unsigned_of :: "frame_id_t \<Rightarrow> nat" where
  "unsigned_of frame_id = nat (frame_id mod 2 ^ 32)"

definition records_count :: "LRUKReplacer \<Rightarrow> frame_id_t \<Rightarrow> nat" where
  "records_count r frame_id = (if frame_id \<in> fst ` set (frameRecords r) then 1 else 0)"

definition queue_push :: "frame_id_t \<Rightarrow> nat \<Rightarrow> (frame_id_t \<times> nat list) list \<Rightarrow> (frame_id_t \<times> nat list) list" where
  "queue_push frame_id ts recs = map (\<lambda>it. if fst it = frame_id then (fst it, snd it @ [ts]) else it) recs"

definition queue_trim :: "nat \<Rightarrow> frame_id_t \<Rightarrow> (frame_id_t \<times> nat list) list \<Rightarrow> (frame_id_t \<times> nat list) list" where
  "queue_trim k frame_id recs =
     map (\<lambda>it. if fst it = frame_id \<and> length (snd it) > k then (fst it, tl (snd it)) else it) recs"

text \<open>
  \<open>RecordAccess\<close>. When the replacer is full and the frame is new, it calls \<open>Evict\<close>
  while it holds \<open>latch_\<close>, and \<open>Evict\<close> starts by locking \<open>latch_\<close>: the same thread
  locks the mutex twice, which is undefined behaviour (the call does not return).
  The pool never takes this branch: it records a frame only after it took it from the
  free list or evicted it.
\<close>

definition RecordAccess :: "LRUKReplacer \<Rightarrow> frame_id_t \<Rightarrow> error + LRUKReplacer" where
  "RecordAccess r frame_id =
     (if \<not> unsigned_of frame_id \<le> replacer_size r then Inl AssertionFailed
      else if length (frameRecords r) = replacer_size r \<and> records_count r frame_id = 0
      then Inl UndefinedBehaviour
      else
        (let r2 = (if records_count r frame_id = 0
                   then r\<lparr>frameRecords := frameRecords r @ [(frame_id, [])],
                          frameEvictable := (frameEvictable r)(frame_id \<mapsto> True),
                          evictableNum := evictableNum r + 1\<rparr>
                   else r);
             ts = current_timestamp r2 + 1;
             r3 = r2\<lparr>current_timestamp := ts,
                     frameRecords := queue_push frame_id ts (frameRecords r2)\<rparr>
         in Inr (r3\<lparr>frameRecords := queue_trim (lruk_k r3) frame_id (frameRecords r3)\<rparr>)))"

definition SetEvictable :: "LRUKReplacer \<Rightarrow> frame_id_t \<Rightarrow> bool \<Rightarrow> error + LRUKReplacer" where
  "SetEvictable r frame_id set_evictable =
     (case frameEvictable r frame_id of
        None \<Rightarrow> Inl AssertionFailed
      | Some cur \<Rightarrow>
          let n = (if set_evictable \<and> \<not> cur then evictableNum r + 1
                   else if \<not> set_evictable \<and> cur then evictableNum r - 1
                   else evictableNum r)
          in Inr (r\<lparr>evictableNum := n, frameEvictable := (frameEvictable r)(frame_id \<mapsto> set_evictable)\<rparr>))"

definition Size :: "LRUKReplacer \<Rightarrow> 64 word" where
  "Size r = evictableNum r"

section \<open>The buffer pool (buffer\_pool\_manager\_instance.cpp)\<close>

subsection \<open>Pages, the disk manager and the page table\<close>

text \<open>
  A frame is a \<open>Page\<close>: its bytes and the metadata \<open>page_id_\<close>, \<open>pin_count_\<close>,
  \<open>is_dirty_\<close> (the fields drop the trailing underscore of the C++ names).
\<close>

record Page =
  data :: "8 word list"
  page_id :: page_id_t
  pin_count :: int
  is_dirty :: bool

definition BUSTUB_PAGE_SIZE :: nat where
  \<comment> \<open>Modelled from the spec: the page size, a constant of the missing config.h
      ("a fixed-size (e.g., 4 KiB) byte array").\<close>
  "BUSTUB_PAGE_SIZE = 4096"

definition ResetMemory :: "Page \<Rightarrow> Page" where
  \<comment> \<open>Modelled from the spec: \<open>Page::ResetMemory\<close> of the missing page.h, which clears
      the frame's bytes and touches no other field.\<close>
  "ResetMemory p = p\<lparr>data := replicate BUSTUB_PAGE_SIZE 0\<rparr>"

text \<open>
  The disk manager is an external collaborator. It is a store from page ids to bytes,
  together with the list of the calls it has received, latest last, so that "calls
  \<open>write_page\<close>" and "calls \<open>deallocate_page\<close>" can be stated.
\<close>

datatype disk_call =
    WritePageCall page_id_t "8 word list"
  | ReadPageCall page_id_t
  | DeallocatePageCall page_id_t

record DiskManager =
  disk_pages :: "page_id_t \<Rightarrow> 8 word list"
  disk_calls :: "disk_call list"

definition WritePage :: "DiskManager \<Rightarrow> page_id_t \<Rightarrow> 8 word list \<Rightarrow> DiskManager" where
  \<comment> \<open>Modelled from the spec: \<open>write_page(id, buf)\<close> of the external disk manager.\<close>
  "WritePage d p bytes =
     d\<lparr>disk_pages := (disk_pages d)(p := bytes), disk_calls := disk_calls d @ [WritePageCall p bytes]\<rparr>"

definition ReadPage :: "DiskManager \<Rightarrow> page_id_t \<Rightarrow> 8 word list \<times> DiskManager" where
  \<comment> \<open>Modelled from the spec: \<open>read_page(id, buf)\<close> of the external disk manager; the
      bytes read are the first component.\<close>
  "ReadPage d p = (disk_pages d p, d\<lparr>disk_calls := disk_calls d @ [ReadPageCall p]\<rparr>)"

definition DeallocatePage :: "DiskManager \<Rightarrow> page_id_t \<Rightarrow> DiskManager" where
  \<comment> \<open>Modelled from the spec: \<open>deallocate_page(id)\<close>; the member of the pool with this
      name is declared in the missing header. The call is recorded, the bytes stay.\<close>
  "DeallocatePage d p = d\<lparr>disk_calls := disk_calls d @ [DeallocatePageCall p]\<rparr>"

text \<open>
  The page table is an \<open>ExtendibleHashTable<page_id_t, frame_id_t>\<close>. The pool uses
  its three operations only, and they are modelled by what they do to the mapping the
  table holds: \<open>Find\<close> returns the value stored under the key, \<open>Insert\<close> stores or
  overwrites, \<open>Remove\<close> erases and tells whether the key was there.
\<close>

type_synonym page_table_t = "page_id_t \<rightharpoonup> frame_id_t"

definition HashTable_Find :: "page_table_t \<Rightarrow> page_id_t \<Rightarrow> frame_id_t option" where
  "HashTable_Find pt p = pt p"

definition HashTable_Insert :: "page_table_t \<Rightarrow> page_id_t \<Rightarrow> frame_id_t \<Rightarrow> page_table_t" where
  "HashTable_Insert pt p f = pt(p \<mapsto> f)"

definition HashTable_Remove :: "page_table_t \<Rightarrow> page_id_t \<Rightarrow> bool \<times> page_table_t" where
  "HashTable_Remove pt p = (pt p \<noteq> None, pt(p := None))"

subsection \<open>The pool\<close>

record BufferPoolManagerInstance =
  pool_size :: nat
  pages :: "frame_id_t \<Rightarrow> Page"
  page_table :: page_table_t
  replacer :: LRUKReplacer
  free_list :: "frame_id_t list"
  next_page_id :: page_id_t
  disk_manager :: DiskManager

definition AllocatePage :: "BufferPoolManagerInstance \<Rightarrow> page_id_t \<times> BufferPoolManagerInstance" where
  "AllocatePage s = (next_page_id s, s\<lparr>next_page_id := next_page_id s + 1\<rparr>)"

text \<open>
  \<open>NewPgImp\<close> and \<open>FetchPgImp\<close> hold the same text for acquiring a frame (lines 44-59
  and 79-93): the back of the free list, else a victim of the replacer, whose mapping is
  removed, whose bytes are written back if it is dirty, and whose memory is reset.
  \<open>acquire_frame\<close> is that text; \<open>None\<close> is the path that returns \<open>nullptr\<close>.
\<close>

definition acquire_frame ::
  "BufferPoolManagerInstance \<Rightarrow> error + (frame_id_t option \<times> BufferPoolManagerInstance)" where
  "acquire_frame s =
     (if free_list s \<noteq> [] then
        Inr (Some (last (free_list s)), s\<lparr>free_list := butlast (free_list s)\<rparr>)
      else
        (case Evict (replacer s) (-1) of
           Inl e \<Rightarrow> Inl e
         | Inr (evicted, frameId, rep) \<Rightarrow>
             if evicted then
               let s1 = s\<lparr>replacer := rep\<rparr>;
                   lastPageId = page_id (pages s1 frameId);
                   s2 = s1\<lparr>page_table := snd (HashTable_Remove (page_table s1) lastPageId)\<rparr>;
                   s3 = (if is_dirty (pages s2 frameId)
                         then s2\<lparr>disk_manager := WritePage (disk_manager s2) lastPageId (data (pages s2 frameId)),
                                 pages := (pages s2)(frameId := (pages s2 frameId)\<lparr>is_dirty := False\<rparr>)\<rparr>
                         else s2)
               in Inr (Some frameId, s3\<lparr>pages := (pages s3)(frameId := ResetMemory (pages s3 frameId))\<rparr>)
             else Inr (None, s\<lparr>replacer := rep\<rparr>)))"

text \<open>The common tail of both: record the access and set the frame non-evictable.\<close>

definition touch_frame :: "LRUKReplacer \<Rightarrow> frame_id_t \<Rightarrow> error + LRUKReplacer" where
  "touch_frame r frameId =
     (case RecordAccess r frameId of
        Inl e \<Rightarrow> Inl e
      | Inr r1 \<Rightarrow> SetEvictable r1 frameId False)"

text \<open>\<open>NewPgImp\<close> returns the new page id (the out-parameter, written on success only)
  and the index of the frame whose address it returns; \<open>None\<close> is \<open>nullptr\<close>.\<close>

definition NewPgImp ::
  "BufferPoolManagerInstance \<Rightarrow> error + ((page_id_t \<times> frame_id_t) option \<times> BufferPoolManagerInstance)" where
  "NewPgImp s0 =
     (case AllocatePage s0 of (newPageId, s) \<Rightarrow>
        (case acquire_frame s of
           Inl e \<Rightarrow> Inl e
         | Inr (None, s') \<Rightarrow> Inr (None, s')
         | Inr (Some frameId, s1) \<Rightarrow>
             let s2 = s1\<lparr>page_table := HashTable_Insert (page_table s1) newPageId frameId\<rparr> in
             (case touch_frame (replacer s2) frameId of
                Inl e \<Rightarrow> Inl e
              | Inr rep \<Rightarrow>
                  let s3 = s2\<lparr>replacer := rep\<rparr>;
                      pg = pages s3 frameId
                  in Inr (Some (newPageId, frameId),
                          s3\<lparr>pages := (pages s3)(frameId := pg\<lparr>pin_count := pin_count pg + 1,
                                                               page_id := newPageId\<rparr>)\<rparr>))))"

definition FetchPgImp ::
  "BufferPoolManagerInstance \<Rightarrow> page_id_t \<Rightarrow> error + (frame_id_t option \<times> BufferPoolManagerInstance)" where
  "FetchPgImp s p =
     (case HashTable_Find (page_table s) p of
        Some frameId \<Rightarrow> Inr (Some frameId, s)
      | None \<Rightarrow>
          (case acquire_frame s of
             Inl e \<Rightarrow> Inl e
           | Inr (None, s') \<Rightarrow> Inr (None, s')
           | Inr (Some frameId, s1) \<Rightarrow>
               let s2 = s1\<lparr>page_table := HashTable_Insert (page_table s1) p frameId\<rparr> in
               (case touch_frame (replacer s2) frameId of
                  Inl e \<Rightarrow> Inl e
                | Inr rep \<Rightarrow>
                    let s3 = s2\<lparr>replacer := rep\<rparr>;
                        rd = ReadPage (disk_manager s3) p;
                        pg = (pages s3 frameId)\<lparr>data := fst rd\<rparr>
                    in Inr (Some frameId,
                            s3\<lparr>disk_manager := snd rd,
                                pages := (pages s3)(frameId := pg\<lparr>pin_count := pin_count pg + 1,
                                                                 page_id := p\<rparr>)\<rparr>))))"

definition UnpinPgImp ::
  "BufferPoolManagerInstance \<Rightarrow> page_id_t \<Rightarrow> bool \<Rightarrow> error + (bool \<times> BufferPoolManagerInstance)" where
  "UnpinPgImp s p dirty =
     (case HashTable_Find (page_table s) p of
        None \<Rightarrow> Inr (False, s)
      | Some frameId \<Rightarrow>
          if pin_count (pages s frameId) \<le> 0 then Inr (False, s)
          else
            let pg = (pages s frameId)\<lparr>pin_count := pin_count (pages s frameId) - 1\<rparr>;
                s1 = s\<lparr>pages := (pages s)(frameId := pg)\<rparr>
            in (case (if pin_count pg = 0 then SetEvictable (replacer s1) frameId True
                      else Inr (replacer s1)) of
                  Inl e \<Rightarrow> Inl e
                | Inr rep \<Rightarrow>
                    Inr (True, s1\<lparr>replacer := rep,
                                  pages := (pages s1)(frameId := (pages s1 frameId)\<lparr>is_dirty := dirty\<rparr>)\<rparr>)))"

definition FlushPgImp ::
  "BufferPoolManagerInstance \<Rightarrow> page_id_t \<Rightarrow> bool \<times> BufferPoolManagerInstance" where
  "FlushPgImp s p =
     (case HashTable_Find (page_table s) p of
        None \<Rightarrow> (False, s)
      | Some frameId \<Rightarrow>
          (True, s\<lparr>disk_manager := WritePage (disk_manager s) p (data (pages s frameId)),
                   pages := (pages s)(frameId := (pages s frameId)\<lparr>is_dirty := False\<rparr>)\<rparr>))"

text \<open>\<open>FlushAllPgsImp\<close> locks \<open>latch_\<close> and calls \<open>FlushPgImp\<close>, which locks it again: with
  at least one frame the same thread locks the \<open>std::mutex\<close> twice.\<close>

definition FlushAllPgsImp :: "BufferPoolManagerInstance \<Rightarrow> error + BufferPoolManagerInstance" where
  "FlushAllPgsImp s = (if 0 < pool_size s then Inl UndefinedBehaviour else Inr s)"

definition DeletePgImp ::
  "BufferPoolManagerInstance \<Rightarrow> page_id_t \<Rightarrow> error + (bool \<times> BufferPoolManagerInstance)" where
  "DeletePgImp s p =
     (case HashTable_Find (page_table s) p of
        None \<Rightarrow> Inr (True, s)
      | Some frameId \<Rightarrow>
          if pin_count (pages s frameId) > 0 then Inr (False, s)
          else
            (case HashTable_Remove (page_table s) p of (removed, pt) \<Rightarrow>
               let s1 = s\<lparr>page_table := pt\<rparr> in
               if \<not> removed then Inr (False, s1)
               else
                 (case Remove (replacer s1) frameId of
                    Inl e \<Rightarrow> Inl e
                  | Inr rep \<Rightarrow>
                      let s2 = s1\<lparr>replacer := rep, free_list := free_list s1 @ [frameId]\<rparr>;
                          s3 = s2\<lparr>pages := (pages s2)(frameId := ResetMemory (pages s2 frameId))\<rparr>
                      in Inr (True, s3\<lparr>disk_manager := DeallocatePage (disk_manager s3) p\<rparr>))))"

text \<open>The constructor: every frame is on the free list, in index order. The frames
  start zeroed, unpinned and clean with \<open>INVALID_PAGE_ID\<close>, as the constructor of
  \<open>Page\<close> in the missing page.h leaves them.\<close>

definition new_Page :: Page where
  \<comment> \<open>Modelled from the spec: the constructor of \<open>Page\<close> (page.h is missing).\<close>
  "new_Page = \<lparr>data = replicate BUSTUB_PAGE_SIZE 0, page_id = INVALID_PAGE_ID, pin_count = 0, is_dirty = False\<rparr>"

definition new_LRUKReplacer :: "nat \<Rightarrow> nat \<Rightarrow> nat \<Rightarrow> LRUKReplacer" where
  "new_LRUKReplacer num_frames k maxTs =
     \<lparr>replacer_size = num_frames, lruk_k = k, current_timestamp = 0, maxTimestamp = maxTs,
      frameRecords = [], frameEvictable = Map.empty, evictableNum = 0\<rparr>"

definition new_BufferPoolManagerInstance ::
  "nat \<Rightarrow> DiskManager \<Rightarrow> nat \<Rightarrow> nat \<Rightarrow> BufferPoolManagerInstance" where
  "new_BufferPoolManagerInstance n dm replacer_k maxTs =
     \<lparr>pool_size = n, pages = (\<lambda>_. new_Page), page_table = Map.empty,
      replacer = new_LRUKReplacer n replacer_k maxTs,
      free_list = map int [0 ..< n], next_page_id = 0, disk_manager = dm\<rparr>"

subsection \<open>A run of a pool with one frame\<close>

text \<open>
  The states a pool of one frame (K = 2) goes through on \<open>NewPage\<close>, \<open>UnpinPage(0, true)\<close>,
  \<open>DeletePage(0)\<close>, \<open>NewPage\<close>. They are written out in full; the section on the
  pool's theorems proves that each call produces the next state.
\<close>

definition disk0 :: DiskManager where
  "disk0 = \<lparr>disk_pages = (\<lambda>_. replicate BUSTUB_PAGE_SIZE 0), disk_calls = []\<rparr>"

definition pool0 :: BufferPoolManagerInstance where
  "pool0 = new_BufferPoolManagerInstance 1 disk0 2 (2 ^ 64 - 1)"

definition pool1 :: BufferPoolManagerInstance where
  "pool1 = \<lparr>pool_size = 1,
      pages = (\<lambda>_. new_Page)(0 := \<lparr>data = replicate BUSTUB_PAGE_SIZE 0, page_id = 0, pin_count = 1, is_dirty = False\<rparr>),
      page_table = [0 \<mapsto> 0],
      replacer = \<lparr>replacer_size = 1, lruk_k = 2, current_timestamp = 1, maxTimestamp = 2 ^ 64 - 1,
                  frameRecords = [(0, [1])], frameEvictable = [0 \<mapsto> False], evictableNum = 0\<rparr>,
      free_list = [], next_page_id = 1, disk_manager = disk0\<rparr>"

definition pool2 :: BufferPoolManagerInstance where
  "pool2 = \<lparr>pool_size = 1,
      pages = (\<lambda>_. new_Page)(0 := \<lparr>data = replicate BUSTUB_PAGE_SIZE 0, page_id = 0, pin_count = 0, is_dirty = True\<rparr>),
      page_table = [0 \<mapsto> 0],
      replacer = \<lparr>replacer_size = 1, lruk_k = 2, current_timestamp = 1, maxTimestamp = 2 ^ 64 - 1,
                  frameRecords = [(0, [1])], frameEvictable = [0 \<mapsto> True], evictableNum = 1\<rparr>,
      free_list = [], next_page_id = 1, disk_manager = disk0\<rparr>"

definition pool3 :: BufferPoolManagerInstance where
  "pool3 = \<lparr>pool_size = 1,
      pages = (\<lambda>_. new_Page)(0 := \<lparr>data = replicate BUSTUB_PAGE_SIZE 0, page_id = 0, pin_count = 0, is_dirty = True\<rparr>),
      page_table = Map.empty,
      replacer = \<lparr>replacer_size = 1, lruk_k = 2, current_timestamp = 1, maxTimestamp = 2 ^ 64 - 1,
                  frameRecords = [], frameEvictable = Map.empty, evictableNum = 0\<rparr>,
      free_list = [0], next_page_id = 1,
      disk_manager = \<lparr>disk_pages = (\<lambda>_. replicate BUSTUB_PAGE_SIZE 0), disk_calls = [DeallocatePageCall 0]\<rparr>\<rparr>"

definition pool4 :: BufferPoolManagerInstance where
  "pool4 = \<lparr>pool_size = 1,
      pages = (\<lambda>_. new_Page)(0 := \<lparr>data = replicate BUSTUB_PAGE_SIZE 0, page_id = 1, pin_count = 1, is_dirty = True\<rparr>),
      page_table = [1 \<mapsto> 0],
      replacer = \<lparr>replacer_size = 1, lruk_k = 2, current_timestamp = 2, maxTimestamp = 2 ^ 64 - 1,
                  frameRecords = [(0, [2])], frameEvictable = [0 \<mapsto> False], evictableNum = 0\<rparr>,
      free_list = [], next_page_id = 2,
      disk_manager = \<lparr>disk_pages = (\<lambda>_. replicate BUSTUB_PAGE_SIZE 0), disk_calls = [DeallocatePageCall 0]\<rparr>\<rparr>"

text \<open>The state \<open>pool2\<close> after the holder of the pin wrote the bytes \<open>[1, 2, 3]\<close> into
  the frame before unpinning it dirty: the frame differs from the disk's copy.\<close>

definition pool2_written :: BufferPoolManagerInstance where
  "pool2_written = pool2\<lparr>pages := (pages pool2)(0 := (pages pool2 0)\<lparr>data := [1, 2, 3]\<rparr>)\<rparr>"

section \<open>The replacer's invariant and the backward K-distance\<close>

text \<open>
  What every replacer built by the constructor and changed by its four operations
  satisfies: the two containers have the same keys, each key once; K is positive; every
  queue holds between one and K timestamps, none later than the counter; the counter
  has not reached \<open>maxTimestamp\<close>.
\<close>

definition replacer_inv :: "LRUKReplacer \<Rightarrow> bool" where
  "replacer_inv r \<longleftrightarrow>
     distinct (map fst (frameRecords r)) \<and>
     fst ` set (frameRecords r) = dom (frameEvictable r) \<and>
     0 < lruk_k r \<and>
     current_timestamp r < maxTimestamp r \<and>
     (\<forall>it \<in> set (frameRecords r).
        snd it \<noteq> [] \<and> length (snd it) \<le> lruk_k r \<and> (\<forall>t \<in> set (snd it). t \<le> current_timestamp r))"





text \<open>A sequence of calls of \<open>RecordAccess\<close>, stopping at the first failed assertion.\<close>

fun RecordAccesses :: "LRUKReplacer \<Rightarrow> frame_id_t list \<Rightarrow> error + LRUKReplacer" where
  "RecordAccesses r [] = Inr r"
| "RecordAccesses r (f # fs) =
     (case RecordAccess r f of
        Inl e \<Rightarrow> Inl e
      | Inr r' \<Rightarrow> RecordAccesses r' fs)"

text \<open>Scenario 6 of the spec: K = 2, three frames, accesses 1, 2, 3, 1, 2, 1; every
  frame is evictable, as \<open>RecordAccess\<close> admits it.\<close>

definition replacer6 :: LRUKReplacer where
  "replacer6 = \<lparr>replacer_size = 3, lruk_k = 2, current_timestamp = 6, maxTimestamp = 2 ^ 64 - 1,
                frameRecords = [(1, [4, 6]), (2, [2, 5]), (3, [3])],
                frameEvictable = [1 \<mapsto> True, 2 \<mapsto> True, 3 \<mapsto> True], evictableNum = 3\<rparr>"

subsection \<open>The invariant of the pool\<close>

text \<open>
  What holds of the pool after the constructor and after every operation: the replacer
  is as large as the pool and tracks each frame at most once, in both containers; the
  frames it tracks and the free frames are frames of the pool, each free frame is listed
  once, and no free frame is tracked; no pin count is negative; and a mapped page sits in a tracked frame that
  carries the page's id and is evictable exactly when its pin count is 0.
\<close>

definition tracked :: "LRUKReplacer \<Rightarrow> frame_id_t set" where
  "tracked r = fst ` set (frameRecords r)"

definition pool_inv :: "BufferPoolManagerInstance \<Rightarrow> bool" where
  "pool_inv s \<longleftrightarrow>
     replacer_size (replacer s) = pool_size s \<and>
     distinct (map fst (frameRecords (replacer s))) \<and>
     tracked (replacer s) = dom (frameEvictable (replacer s)) \<and>
     (\<forall>f \<in> tracked (replacer s). 0 \<le> f \<and> f < int (pool_size s)) \<and>
     distinct (free_list s) \<and>
     (\<forall>f \<in> set (free_list s). 0 \<le> f \<and> f < int (pool_size s) \<and> f \<notin> tracked (replacer s)) \<and>
     (\<forall>f. 0 \<le> pin_count (pages s f)) \<and>
     (\<forall>p f. page_table s p = Some f \<longrightarrow>
            f \<in> tracked (replacer s) \<and> page_id (pages s f) = p \<and>
            (pin_count (pages s f) = 0 \<longleftrightarrow> frameEvictable (replacer s) f = Some True))"

text \<open>The states the pool reaches from the constructor by its operations.\<close>

inductive reachable :: "BufferPoolManagerInstance \<Rightarrow> bool" where
  init: "reachable (new_BufferPoolManagerInstance n dm replacer_k maxTs)"
| new_page: "reachable s \<Longrightarrow> NewPgImp s = Inr (res, s') \<Longrightarrow> reachable s'"
| fetch_page: "reachable s \<Longrightarrow> FetchPgImp s p = Inr (fres, s') \<Longrightarrow> reachable s'"
| unpin_page: "reachable s \<Longrightarrow> UnpinPgImp s p dirty = Inr (ok, s') \<Longrightarrow> reachable s'"
| flush_page: "reachable s \<Longrightarrow> FlushPgImp s p = (ok, s') \<Longrightarrow> reachable s'"
| delete_page: "reachable s \<Longrightarrow> DeletePgImp s p = Inr (ok, s') \<Longrightarrow> reachable s'"

section \<open>B+-tree pages (b\_plus\_tree\_leaf\_page.cpp, b\_plus\_tree\_internal\_page.cpp)\<close>

subsection \<open>Keys, slots and the page header\<close>

text \<open>
  The index is instantiated with \<open>GenericKey\<close> and \<open>GenericComparator\<close>, which are not part
  of the sources. Keys are modelled by the integers they are set from
  (\<open>SetFromInteger\<close>), and the comparator by the three-way comparison of integers. A
  leaf's value is a record id, an internal page's value is a page id; both are \<open>int\<close>.
\<close>

type_synonym KeyType = int
type_synonym MappingType = "int \<times> int"

definition keyComparator :: "KeyType \<Rightarrow> KeyType \<Rightarrow> int" where
  \<comment> \<open>Modelled from the spec: "total order on keys; returns sign as {-1, 0, +1}"
      (generic\_key.h is missing).\<close>
  "keyComparator a b = (if a < b then -1 else if b < a then 1 else 0)"

text \<open>
  Leaf and internal pages share the header of \<open>BPlusTreePage\<close> and are cast to one
  another, so one record models both: the header fields, the leaf's \<open>next_page_id_\<close>
  and the slot array \<open>array_\<close>. The array is indexed by the C++ \<open>int\<close> index. The field
  names: \<open>cur_size\<close> is \<open>size_\<close>, \<open>node_page_id\<close> is \<open>page_id_\<close>, \<open>next_leaf_page_id\<close> is
  \<open>next_page_id_\<close>, \<open>array\<close> is \<open>array_\<close>.
\<close>

datatype IndexPageType = INVALID_INDEX_PAGE | LEAF_PAGE | INTERNAL_PAGE

record BPlusTreePage =
  page_type :: IndexPageType
  cur_size :: int
  max_size :: int
  parent_page_id :: page_id_t
  node_page_id :: page_id_t
  next_leaf_page_id :: page_id_t
  array :: "int \<Rightarrow> MappingType"

text \<open>The methods of the header. b\_plus\_tree\_page.cpp is not part of the sources.\<close>

definition IsLeafPage :: "BPlusTreePage \<Rightarrow> bool" where
  \<comment> \<open>Modelled from the spec: the header's \<open>page_type\<close> tells leaf from internal.\<close>
  "IsLeafPage n \<longleftrightarrow> page_type n = LEAF_PAGE"

definition IsRootPage :: "BPlusTreePage \<Rightarrow> bool" where
  \<comment> \<open>Modelled from the spec: the root is the node whose parent id is \<open>INVALID\<close>
      ("promote that child to root (clear its parent-id)").\<close>
  "IsRootPage n \<longleftrightarrow> parent_page_id n = INVALID_PAGE_ID"

definition GetSize :: "BPlusTreePage \<Rightarrow> int" where
  \<comment> \<open>Modelled from the spec: the getters and setters of the header fields.\<close>
  "GetSize n = cur_size n"

definition SetSize :: "BPlusTreePage \<Rightarrow> int \<Rightarrow> BPlusTreePage" where
  \<comment> \<open>Modelled from the spec: the getters and setters of the header fields.\<close>
  "SetSize n s = n\<lparr>cur_size := s\<rparr>"

definition IncreaseSize :: "BPlusTreePage \<Rightarrow> int \<Rightarrow> BPlusTreePage" where
  \<comment> \<open>Modelled from the spec: the getters and setters of the header fields.\<close>
  "IncreaseSize n amount = n\<lparr>cur_size := cur_size n + amount\<rparr>"

definition GetMaxSize :: "BPlusTreePage \<Rightarrow> int" where
  \<comment> \<open>Modelled from the spec: the getters and setters of the header fields.\<close>
  "GetMaxSize n = max_size n"

definition GetMinSize :: "BPlusTreePage \<Rightarrow> int" where
  \<comment> \<open>Modelled from the spec: "\<open>min_size\<close> is \<open>ceil(max_size/2)\<close> for internal children,
      \<open>ceil((max_size - 1)/2)\<close> for leaf entries".\<close>
  "GetMinSize n = (if IsLeafPage n then max_size n div 2 else (max_size n + 1) div 2)"

definition GetParentPageId :: "BPlusTreePage \<Rightarrow> page_id_t" where
  \<comment> \<open>Modelled from the spec: the getters and setters of the header fields.\<close>
  "GetParentPageId n = parent_page_id n"

definition SetParentPageId :: "BPlusTreePage \<Rightarrow> page_id_t \<Rightarrow> BPlusTreePage" where
  \<comment> \<open>Modelled from the spec: the getters and setters of the header fields.\<close>
  "SetParentPageId n p = n\<lparr>parent_page_id := p\<rparr>"

definition GetPageId :: "BPlusTreePage \<Rightarrow> page_id_t" where
  \<comment> \<open>Modelled from the spec: the getters and setters of the header fields.\<close>
  "GetPageId n = node_page_id n"

definition GetNextPageId :: "BPlusTreePage \<Rightarrow> page_id_t" where
  "GetNextPageId n = next_leaf_page_id n"

definition SetNextPageId :: "BPlusTreePage \<Rightarrow> page_id_t \<Rightarrow> BPlusTreePage" where
  "SetNextPageId n p = n\<lparr>next_leaf_page_id := p\<rparr>"

text \<open>
  \<open>std::copy\<close>, \<open>std::move\<close> and \<open>std::move_backward\<close> on slot ranges. \<open>std_copy src first
  last dst d_first\<close> is the array \<open>dst\<close> after the slots \<open>first \<dots> last - 1\<close> of \<open>src\<close> were
  copied to \<open>d_first\<close> onwards. \<open>std::move(first, last, d_first)\<close> inside one array is
  \<open>std_copy a first last a d_first\<close>, and \<open>std::move_backward(first, last, d_last)\<close> is
  \<open>std_copy a first last a (d_last - (last - first))\<close>: the slots hold plain data, and
  the calls of the sources keep to the ranges the standard allows.
\<close>

definition std_copy :: "(int \<Rightarrow> 'a) \<Rightarrow> int \<Rightarrow> int \<Rightarrow> (int \<Rightarrow> 'a) \<Rightarrow> int \<Rightarrow> (int \<Rightarrow> 'a)" where
  "std_copy src first lst dst d_first =
     (\<lambda>i. if d_first \<le> i \<and> i < d_first + (lst - first) then src (first + (i - d_first)) else dst i)"

definition std_move :: "(int \<Rightarrow> 'a) \<Rightarrow> int \<Rightarrow> int \<Rightarrow> int \<Rightarrow> (int \<Rightarrow> 'a)" where
  "std_move a first lst d_first = std_copy a first lst a d_first"

definition std_move_backward :: "(int \<Rightarrow> 'a) \<Rightarrow> int \<Rightarrow> int \<Rightarrow> int \<Rightarrow> (int \<Rightarrow> 'a)" where
  "std_move_backward a first lst d_last = std_copy a first lst a (d_last - (lst - first))"

text \<open>
  \<open>std::lower_bound\<close> over the slots \<open>first \<dots> first + len - 1\<close> with the comparison
  \<open>keyComparator(x.first, k) < 0\<close>: the binary search of the standard library.
\<close>

function lower_bound :: "(int \<Rightarrow> MappingType) \<Rightarrow> int \<Rightarrow> int \<Rightarrow> KeyType \<Rightarrow> int" where
  "lower_bound a first len k =
     (if 0 < len then
        (let half = len div 2; middle = first + half in
         if keyComparator (fst (a middle)) k < 0
         then lower_bound a (middle + 1) (len - half - 1) k
         else lower_bound a first half k)
      else first)"
  by pat_completeness auto
termination
  by (relation "measure (\<lambda>(a, first, len, k). nat len)") auto

declare lower_bound.simps [simp del]

subsection \<open>Leaf pages\<close>

definition Leaf_Init :: "BPlusTreePage \<Rightarrow> page_id_t \<Rightarrow> page_id_t \<Rightarrow> int \<Rightarrow> BPlusTreePage" where
  "Leaf_Init n pid parent_id max_sz =
     n\<lparr>page_type := LEAF_PAGE, cur_size := 0, node_page_id := pid, parent_page_id := parent_id,
       next_leaf_page_id := INVALID_PAGE_ID, max_size := max_sz\<rparr>"

definition KeyAt :: "BPlusTreePage \<Rightarrow> int \<Rightarrow> KeyType" where
  "KeyAt n index = fst (array n index)"

definition FindPos :: "BPlusTreePage \<Rightarrow> KeyType \<Rightarrow> int" where
  "FindPos n k = lower_bound (array n) 0 (GetSize n) k"

definition Leaf_LookUp :: "BPlusTreePage \<Rightarrow> KeyType \<Rightarrow> int option" where
  "Leaf_LookUp n k =
     (let pos = FindPos n k in
      if pos \<noteq> GetSize n \<and> keyComparator (KeyAt n pos) k = 0 then Some (snd (array n pos))
      else None)"

text \<open>\<open>Insert\<close> returns the node and the size it returns.\<close>

definition Leaf_Insert :: "BPlusTreePage \<Rightarrow> KeyType \<Rightarrow> int \<Rightarrow> BPlusTreePage \<times> int" where
  "Leaf_Insert n key val =
     (let pos = FindPos n key in
      if pos = GetSize n then
        (let n1 = IncreaseSize (n\<lparr>array := (array n)(GetSize n := (key, val))\<rparr>) 1
         in (n1, GetSize n1))
      else if keyComparator (fst (array n pos)) key = 0 then (n, GetSize n)
      else
        (let n1 = n\<lparr>array := std_move_backward (array n) pos (GetSize n) (GetSize n + 1)\<rparr>;
             n2 = IncreaseSize (n1\<lparr>array := (array n1)(pos := (key, val))\<rparr>) 1
         in (n2, GetSize n2)))"

definition Leaf_CopyLastFrom :: "BPlusTreePage \<Rightarrow> MappingType \<Rightarrow> BPlusTreePage" where
  "Leaf_CopyLastFrom n item = IncreaseSize (n\<lparr>array := (array n)(GetSize n := item)\<rparr>) 1"

definition Leaf_CopyFirstFrom :: "BPlusTreePage \<Rightarrow> MappingType \<Rightarrow> BPlusTreePage" where
  "Leaf_CopyFirstFrom n item =
     (let n1 = n\<lparr>array := std_move_backward (array n) 0 (GetSize n) (GetSize n + 1)\<rparr>
      in IncreaseSize (n1\<lparr>array := (array n1)(0 := item)\<rparr>) 1)"

subsection \<open>Internal pages\<close>

definition Internal_Init :: "BPlusTreePage \<Rightarrow> page_id_t \<Rightarrow> page_id_t \<Rightarrow> int \<Rightarrow> BPlusTreePage" where
  "Internal_Init n pid parent_id max_sz =
     n\<lparr>page_type := INTERNAL_PAGE, cur_size := 0, node_page_id := pid, parent_page_id := parent_id,
       max_size := max_sz\<rparr>"

definition SetKeyAt :: "BPlusTreePage \<Rightarrow> int \<Rightarrow> KeyType \<Rightarrow> BPlusTreePage" where
  "SetKeyAt n index key = n\<lparr>array := (array n)(index := (key, snd (array n index)))\<rparr>"

definition ValueAt :: "BPlusTreePage \<Rightarrow> int \<Rightarrow> int" where
  "ValueAt n index = snd (array n index)"

definition SetValueAt :: "BPlusTreePage \<Rightarrow> int \<Rightarrow> int \<Rightarrow> BPlusTreePage" where
  "SetValueAt n index v = n\<lparr>array := (array n)(index := (fst (array n index), v))\<rparr>"

text \<open>
  \<open>LookUp\<close> of an internal page. \<open>LookUp_index\<close> is the index of the slot whose value it
  returns. The slot \<open>-1\<close> lies before the array, in the page header: reading it is
  out of the array's bounds, which is the error \<open>UndefinedBehaviour\<close>.
\<close>

definition LookUp_index :: "BPlusTreePage \<Rightarrow> KeyType \<Rightarrow> int" where
  "LookUp_index n k =
     (let pos = FindPos n k in
      if pos \<noteq> GetSize n \<and> keyComparator (fst (array n pos)) k = 0 then pos else pos - 1)"

definition Internal_LookUp :: "BPlusTreePage \<Rightarrow> KeyType \<Rightarrow> error + int" where
  "Internal_LookUp n k =
     (if LookUp_index n k < 0 then Inl UndefinedBehaviour else Inr (ValueAt n (LookUp_index n k)))"

definition Internal_Insert :: "BPlusTreePage \<Rightarrow> KeyType \<Rightarrow> int \<Rightarrow> BPlusTreePage \<times> int" where
  "Internal_Insert n key val =
     (let pos = FindPos n key in
      if pos = GetSize n then
        (let n1 = IncreaseSize (n\<lparr>array := (array n)(GetSize n := (key, val))\<rparr>) 1
         in (n1, GetSize n1))
      else if keyComparator (fst (array n pos)) key = 0 then (n, GetSize n)
      else
        (let n1 = n\<lparr>array := std_move_backward (array n) pos (GetSize n) (GetSize n + 1)\<rparr>;
             n2 = IncreaseSize (n1\<lparr>array := (array n1)(pos := (key, val))\<rparr>) 1
         in (n2, GetSize n2)))"

text \<open>The slots \<open>0 \<dots> size - 1\<close> of a page, in order.\<close>

definition entries :: "BPlusTreePage \<Rightarrow> MappingType list" where
  "entries n = map (\<lambda>i. array n (int i)) [0 ..< nat (cur_size n)]"

section \<open>The B+-tree index (b\_plus\_tree.cpp)\<close>

subsection \<open>The tree and the memory its nodes live in\<close>

text \<open>
  The tree reaches its nodes through the \<open>BufferPoolManager\<close> interface: \<open>FetchPage\<close> and
  \<open>NewPage\<close> hand out a page whose bytes the tree casts to a node, and \<open>UnpinPage\<close> gives
  it back. The tree is modelled against that interface: \<open>tree_pages t p\<close> is the node
  the bytes of page \<open>p\<close> hold, \<open>NewPage\<close> hands out the next page id with zeroed bytes,
  and a fetched page is there until it is unpinned; pin counts, latches and the
  transaction's page set do not touch node contents and are left out. This is a pool
  with a frame for every page of the tree: \<open>NewPage\<close> and \<open>FetchPage\<close> do not return
  \<open>nullptr\<close> and no page is evicted. (A pool with fewer frames than the tree has pages
  can evict a page the tree still works on, because \<open>FetchPgImp\<close> does not pin a page
  that is mapped; the trees of the runs below have three pages.) A pointer to a
  node is the page it lives in, or the scratch buffer \<open>mem\<close> that \<open>InsertIntoParent\<close>
  allocates. \<open>header_page\<close> holds the records of the header page (page 0).
\<close>

datatype node_ptr = PagePtr page_id_t | MemPtr

record BPlusTree =
  index_name :: string
  root_page_id :: page_id_t
  leaf_max_size :: int
  internal_max_size :: int
  tree_pages :: "page_id_t \<Rightarrow> BPlusTreePage"
  mem :: BPlusTreePage
  bpm_next_page_id :: page_id_t
  header_page :: "(string \<times> page_id_t) list"

fun deref :: "BPlusTree \<Rightarrow> node_ptr \<Rightarrow> BPlusTreePage" where
  "deref t (PagePtr p) = tree_pages t p"
| "deref t MemPtr = mem t"

fun assign :: "BPlusTree \<Rightarrow> node_ptr \<Rightarrow> BPlusTreePage \<Rightarrow> BPlusTree" where
  "assign t (PagePtr p) n = t\<lparr>tree_pages := (tree_pages t)(p := n)\<rparr>"
| "assign t MemPtr n = t\<lparr>mem := n\<rparr>"

definition zero_node :: BPlusTreePage where
  \<comment> \<open>The node a page of zeroed bytes casts to.\<close>
  "zero_node = \<lparr>page_type = INVALID_INDEX_PAGE, cur_size = 0, max_size = 0, parent_page_id = 0,
                node_page_id = 0, next_leaf_page_id = 0, array = (\<lambda>_. (0, 0))\<rparr>"

definition bpm_NewPage :: "BPlusTree \<Rightarrow> page_id_t \<times> BPlusTree" where
  "bpm_NewPage t =
     (bpm_next_page_id t,
      t\<lparr>bpm_next_page_id := bpm_next_page_id t + 1,
        tree_pages := (tree_pages t)(bpm_next_page_id t := zero_node)\<rparr>)"

definition HEADER_PAGE_ID :: page_id_t where
  \<comment> \<open>Modelled from the spec: "a reserved page-id (zero)".\<close>
  "HEADER_PAGE_ID = 0"

definition InsertRecord :: "(string \<times> page_id_t) list \<Rightarrow> string \<Rightarrow> page_id_t \<Rightarrow> (string \<times> page_id_t) list" where
  \<comment> \<open>Modelled from the spec: \<open>insert_record(name, root_id)\<close> of the header page, an
      append-only mapping (header\_page.cpp is missing).\<close>
  "InsertRecord recs name root_id =
     (if name \<in> fst ` set recs then recs else recs @ [(name, root_id)])"

definition UpdateRecord :: "(string \<times> page_id_t) list \<Rightarrow> string \<Rightarrow> page_id_t \<Rightarrow> (string \<times> page_id_t) list" where
  \<comment> \<open>Modelled from the spec: \<open>update_record(name, root_id)\<close> of the header page.\<close>
  "UpdateRecord recs name root_id = map (\<lambda>r. if fst r = name then (name, root_id) else r) recs"

definition UpdateRootPageId :: "BPlusTree \<Rightarrow> int \<Rightarrow> BPlusTree" where
  "UpdateRootPageId t insert_record =
     (if insert_record \<noteq> 0
      then t\<lparr>header_page := InsertRecord (header_page t) (index_name t) (root_page_id t)\<rparr>
      else t\<lparr>header_page := UpdateRecord (header_page t) (index_name t) (root_page_id t)\<rparr>)"

definition IsEmpty :: "BPlusTree \<Rightarrow> bool" where
  "IsEmpty t \<longleftrightarrow> root_page_id t = INVALID_PAGE_ID"

subsection \<open>The page methods that move slots between two nodes\<close>

definition Leaf_CopyNFrom :: "BPlusTree \<Rightarrow> node_ptr \<Rightarrow> node_ptr \<Rightarrow> int \<Rightarrow> int \<Rightarrow> BPlusTree" where
  \<comment> \<open>\<open>this->CopyNFrom(arr, n)\<close> where \<open>arr\<close> points at slot \<open>off\<close> of the node \<open>src\<close>.\<close>
  "Leaf_CopyNFrom t this src off n =
     (let dst = deref t this
      in assign t this
           (IncreaseSize (dst\<lparr>array := std_copy (array (deref t src)) off (off + n) (array dst) (GetSize dst)\<rparr>) n))"

definition Leaf_MoveHalfTo :: "BPlusTree \<Rightarrow> node_ptr \<Rightarrow> node_ptr \<Rightarrow> BPlusTree" where
  "Leaf_MoveHalfTo t this siblingNode =
     (let midPos = GetMinSize (deref t this);
          t1 = Leaf_CopyNFrom t siblingNode this midPos (GetSize (deref t this) - midPos)
      in assign t1 this (SetSize (deref t1 this) midPos))"

definition Leaf_MoveFirstToEndOf :: "BPlusTree \<Rightarrow> node_ptr \<Rightarrow> node_ptr \<Rightarrow> BPlusTree" where
  "Leaf_MoveFirstToEndOf t this recipient =
     (let n = deref t this;
          t1 = assign t this (n\<lparr>array := std_move (array n) 1 (GetSize n) 0\<rparr>);
          t2 = assign t1 this (IncreaseSize (deref t1 this) (-1))
      in assign t2 recipient (Leaf_CopyLastFrom (deref t2 recipient) (array (deref t2 this) 0)))"

definition Leaf_MoveLastToFrontOf :: "BPlusTree \<Rightarrow> node_ptr \<Rightarrow> node_ptr \<Rightarrow> BPlusTree" where
  "Leaf_MoveLastToFrontOf t this recipient =
     (let t1 = assign t this (IncreaseSize (deref t this) (-1))
      in assign t1 recipient
           (Leaf_CopyFirstFrom (deref t1 recipient) (array (deref t1 this) (GetSize (deref t1 this) - 1))))"

text \<open>The internal page's movers fetch every child they move and rewrite its parent
  id. \<open>reparent t this child\<close> is one such fetch, write and unpin.\<close>

definition reparent :: "BPlusTree \<Rightarrow> node_ptr \<Rightarrow> page_id_t \<Rightarrow> BPlusTree" where
  "reparent t this child =
     assign t (PagePtr child) (SetParentPageId (deref t (PagePtr child)) (GetPageId (deref t this)))"

definition Internal_CopyNFrom :: "BPlusTree \<Rightarrow> node_ptr \<Rightarrow> node_ptr \<Rightarrow> int \<Rightarrow> int \<Rightarrow> BPlusTree" where
  "Internal_CopyNFrom t this src off n =
     (let dst = deref t this;
          t1 = assign t this (dst\<lparr>array := std_copy (array (deref t src)) off (off + n) (array dst) (GetSize dst)\<rparr>);
          t2 = foldl (\<lambda>s i. reparent s this (snd (array (deref s src) (off + int i)))) t1 [0 ..< nat n]
      in assign t2 this (IncreaseSize (deref t2 this) n))"

definition Internal_MoveHalfTo :: "BPlusTree \<Rightarrow> node_ptr \<Rightarrow> node_ptr \<Rightarrow> BPlusTree" where
  "Internal_MoveHalfTo t this siblingNode =
     (let midPos = GetMinSize (deref t this);
          t1 = Internal_CopyNFrom t siblingNode this midPos (GetSize (deref t this) - midPos)
      in assign t1 this (SetSize (deref t1 this) midPos))"

definition Internal_CopyLastFrom :: "BPlusTree \<Rightarrow> node_ptr \<Rightarrow> MappingType \<Rightarrow> BPlusTree" where
  "Internal_CopyLastFrom t this pair =
     (let n = deref t this;
          t1 = assign t this (IncreaseSize (n\<lparr>array := (array n)(GetSize n := pair)\<rparr>) 1)
      in reparent t1 this (snd pair))"

definition Internal_CopyFirstFrom :: "BPlusTree \<Rightarrow> node_ptr \<Rightarrow> MappingType \<Rightarrow> BPlusTree" where
  "Internal_CopyFirstFrom t this pair =
     (let n = deref t this;
          n1 = n\<lparr>array := std_move_backward (array n) 0 (GetSize n) (GetSize n + 1)\<rparr>;
          t1 = assign t this (IncreaseSize (n1\<lparr>array := (array n1)(0 := pair)\<rparr>) 1)
      in reparent t1 this (snd pair))"

definition Internal_MoveFirstToEndOf :: "BPlusTree \<Rightarrow> node_ptr \<Rightarrow> node_ptr \<Rightarrow> KeyType \<Rightarrow> BPlusTree" where
  "Internal_MoveFirstToEndOf t this recipient middle_key =
     (let t1 = assign t this (SetKeyAt (deref t this) 0 middle_key);
          first_item = array (deref t1 this) 0;
          t2 = Internal_CopyLastFrom t1 recipient first_item;
          n = deref t2 this;
          t3 = assign t2 this (n\<lparr>array := std_move (array n) 1 (GetSize n) 0\<rparr>)
      in assign t3 this (IncreaseSize (deref t3 this) (-1)))"

definition Internal_MoveLastToFrontOf :: "BPlusTree \<Rightarrow> node_ptr \<Rightarrow> node_ptr \<Rightarrow> KeyType \<Rightarrow> BPlusTree" where
  "Internal_MoveLastToFrontOf t this recipient middle_key =
     (let last_item = array (deref t this) (GetSize (deref t this) - 1);
          t1 = assign t recipient (SetKeyAt (deref t recipient) 0 middle_key);
          t2 = Internal_CopyFirstFrom t1 recipient last_item
      in assign t2 this (IncreaseSize (deref t2 this) (-1)))"

subsection \<open>Search\<close>

text \<open>
  The loop of \<open>FindLeaf\<close>, from the page \<open>p\<close> on. It need not end in a store whose child
  pointers run in a circle, so it is a partial function: \<open>None\<close> is a loop that does
  not return. \<open>Some (Inl e)\<close> is the error of \<open>LookUp\<close>.
\<close>

partial_function (option) FindLeaf_loop ::
  "(page_id_t \<Rightarrow> BPlusTreePage) \<Rightarrow> KeyType \<Rightarrow> bool \<Rightarrow> bool \<Rightarrow> page_id_t \<Rightarrow> (error + page_id_t) option" where
  "FindLeaf_loop pgs key leftMost rightMost p =
     (if IsLeafPage (pgs p) then Some (Inr p)
      else
        (case (if leftMost then Inr (ValueAt (pgs p) 0)
               else if rightMost then Inr (ValueAt (pgs p) (GetSize (pgs p) - 1))
               else Internal_LookUp (pgs p) key) of
           Inl e \<Rightarrow> Some (Inl e)
         | Inr childPageId \<Rightarrow> FindLeaf_loop pgs key leftMost rightMost childPageId))"

definition FindLeaf :: "BPlusTree \<Rightarrow> KeyType \<Rightarrow> bool \<Rightarrow> bool \<Rightarrow> (error + page_id_t) option" where
  "FindLeaf t key leftMost rightMost =
     (if root_page_id t = INVALID_PAGE_ID then Some (Inl AssertionFailed)
      else FindLeaf_loop (tree_pages t) key leftMost rightMost (root_page_id t))"

definition GetValue :: "BPlusTree \<Rightarrow> KeyType \<Rightarrow> (error + int option) option" where
  "GetValue t key =
     (case FindLeaf t key False False of
        None \<Rightarrow> None
      | Some (Inl e) \<Rightarrow> Some (Inl e)
      | Some (Inr leafPage) \<Rightarrow> Some (Inr (Leaf_LookUp (tree_pages t leafPage) key)))"

subsection \<open>Insertion\<close>

definition StartNewTree :: "BPlusTree \<Rightarrow> KeyType \<Rightarrow> int \<Rightarrow> BPlusTree" where
  "StartNewTree t key val =
     (case bpm_NewPage t of (rid, t0) \<Rightarrow>
        let t1 = t0\<lparr>root_page_id := rid\<rparr>;
            node = PagePtr (root_page_id t1);
            t2 = assign t1 node (Leaf_Init (deref t1 node) (root_page_id t1) INVALID_PAGE_ID (leaf_max_size t1))
        in assign t2 node (fst (Leaf_Insert (deref t2 node) key val)))"

text \<open>\<open>Split\<close> returns the page of the new sibling.\<close>

definition Split :: "BPlusTree \<Rightarrow> node_ptr \<Rightarrow> page_id_t \<times> BPlusTree" where
  "Split t node =
     (case bpm_NewPage t of (siblingPageId, t1) \<Rightarrow>
        let sibling = PagePtr siblingPageId;
            t2 = assign t1 sibling ((deref t1 sibling)\<lparr>page_type := page_type (deref t1 node)\<rparr>)
        in if IsLeafPage (deref t2 node) then
             (let t3 = assign t2 sibling
                         (Leaf_Init (deref t2 sibling) siblingPageId (GetParentPageId (deref t2 node)) (leaf_max_size t2))
              in (siblingPageId, Leaf_MoveHalfTo t3 node sibling))
           else
             (let t3 = assign t2 sibling
                         (Internal_Init (deref t2 sibling) siblingPageId (GetParentPageId (deref t2 node)) (internal_max_size t2))
              in (siblingPageId, Internal_MoveHalfTo t3 node sibling)))"

text \<open>
  \<open>InsertIntoParent\<close>. \<open>NewPage(&root_page_id_)\<close> writes the new page id into
  \<open>root_page_id_\<close>. In the last branch the first \<open>memcpy\<close> fills the scratch buffer with
  the parent's header and its first \<open>internal_max_size_\<close> slots (the slots beyond keep
  what the buffer held), and the second copies the header and the first \<open>GetMinSize()\<close>
  slots of the buffer back into the parent. The recursion climbs the parent ids and
  need not end in a store where they run in a circle: \<open>None\<close> is a call that does not
  return.
\<close>

partial_function (option) InsertIntoParent ::
  "BPlusTree \<Rightarrow> node_ptr \<Rightarrow> node_ptr \<Rightarrow> KeyType \<Rightarrow> BPlusTree option" where
  "InsertIntoParent t oldNode newNode key =
     (if IsRootPage (deref t oldNode) then
        (case bpm_NewPage t of (rid, t0) \<Rightarrow>
           let t1 = t0\<lparr>root_page_id := rid\<rparr>;
               rootNode = PagePtr rid;
               t2 = assign t1 rootNode
                      (Internal_Init (deref t1 rootNode) (root_page_id t1) INVALID_PAGE_ID (internal_max_size t1));
               t3 = assign t2 rootNode (SetKeyAt (deref t2 rootNode) 1 key);
               t4 = assign t3 rootNode (SetValueAt (deref t3 rootNode) 0 (GetPageId (deref t3 oldNode)));
               t5 = assign t4 rootNode (SetValueAt (deref t4 rootNode) 1 (GetPageId (deref t4 newNode)));
               t6 = assign t5 rootNode (SetSize (deref t5 rootNode) 2);
               t7 = assign t6 oldNode (SetParentPageId (deref t6 oldNode) (GetPageId (deref t6 rootNode)));
               t8 = assign t7 newNode (SetParentPageId (deref t7 newNode) (GetPageId (deref t7 rootNode)))
           in Some t8)
      else
        (let parentNode = PagePtr (GetParentPageId (deref t oldNode)) in
         if GetSize (deref t parentNode) < internal_max_size t then
           (let t1 = assign t parentNode
                       (fst (Internal_Insert (deref t parentNode) key (GetPageId (deref t newNode))));
                t2 = assign t1 oldNode (SetParentPageId (deref t1 oldNode) (GetPageId (deref t1 parentNode)));
                t3 = assign t2 newNode (SetParentPageId (deref t2 newNode) (GetPageId (deref t2 parentNode)))
            in Some t3)
         else
           (let t1 = assign t MemPtr
                       ((deref t parentNode)
                          \<lparr>array := std_copy (array (deref t parentNode)) 0 (internal_max_size t) (array (mem t)) 0\<rparr>);
                t2 = assign t1 MemPtr
                       (fst (Internal_Insert (deref t1 MemPtr) key (GetPageId (deref t1 newNode))))
            in case Split t2 MemPtr of (siblingPageId, t3) \<Rightarrow>
                 let cp = deref t3 MemPtr;
                     t4 = assign t3 parentNode
                            (cp\<lparr>array := std_copy (array cp) 0 (GetMinSize cp) (array (deref t3 parentNode)) 0\<rparr>)
                 in InsertIntoParent t4 parentNode (PagePtr siblingPageId)
                      (KeyAt (deref t4 (PagePtr siblingPageId)) 0))))"

definition InsertIntoLeaf :: "BPlusTree \<Rightarrow> KeyType \<Rightarrow> int \<Rightarrow> (error + bool \<times> BPlusTree) option" where
  "InsertIntoLeaf t key val =
     (case FindLeaf t key False False of
        None \<Rightarrow> None
      | Some (Inl e) \<Rightarrow> Some (Inl e)
      | Some (Inr leafPage) \<Rightarrow>
          let leafNode = PagePtr leafPage;
              lastSize = GetSize (deref t leafNode);
              ins = Leaf_Insert (deref t leafNode) key val;
              t1 = assign t leafNode (fst ins);
              nowSize = snd ins
          in if nowSize = lastSize then Some (Inr (False, t1))
             else if nowSize < leaf_max_size t1 then Some (Inr (True, t1))
             else
               (case Split t1 leafNode of (siblingPageId, t2) \<Rightarrow>
                  let siblingLeafNode = PagePtr siblingPageId;
                      t3 = assign t2 siblingLeafNode
                             (SetNextPageId (deref t2 siblingLeafNode) (GetNextPageId (deref t2 leafNode)));
                      t4 = assign t3 leafNode
                             (SetNextPageId (deref t3 leafNode) (GetPageId (deref t3 siblingLeafNode)))
                  in (case InsertIntoParent t4 leafNode siblingLeafNode (KeyAt (deref t4 siblingLeafNode) 0) of
                        None \<Rightarrow> None
                      | Some t5 \<Rightarrow> Some (Inr (True, t5)))))"

definition BPlusTree_Insert :: "BPlusTree \<Rightarrow> KeyType \<Rightarrow> int \<Rightarrow> (error + bool \<times> BPlusTree) option" where
  "BPlusTree_Insert t key val =
     (if IsEmpty t then Some (Inr (True, StartNewTree t key val))
      else InsertIntoLeaf t key val)"

subsection \<open>Redistribution and the root\<close>

definition Redistribute ::
  "BPlusTree \<Rightarrow> node_ptr \<Rightarrow> node_ptr \<Rightarrow> node_ptr \<Rightarrow> int \<Rightarrow> bool \<Rightarrow> BPlusTree" where
  "Redistribute t neighbor_node node parent index from_prev =
     (if IsLeafPage (deref t node) then
        (if \<not> from_prev then
           (let t1 = Leaf_MoveFirstToEndOf t neighbor_node node
            in assign t1 parent (SetKeyAt (deref t1 parent) (index + 1) (KeyAt (deref t1 neighbor_node) 0)))
         else
           (let t1 = Leaf_MoveLastToFrontOf t neighbor_node node
            in assign t1 parent (SetKeyAt (deref t1 parent) index (KeyAt (deref t1 node) 0))))
      else
        (if \<not> from_prev then
           (let t1 = Internal_MoveFirstToEndOf t neighbor_node node (KeyAt (deref t parent) (index + 1))
            in assign t1 parent (SetKeyAt (deref t1 parent) (index + 1) (KeyAt (deref t1 neighbor_node) 0)))
         else
           (let t1 = Internal_MoveLastToFrontOf t neighbor_node node (KeyAt (deref t parent) index)
            in assign t1 parent (SetKeyAt (deref t1 parent) index (KeyAt (deref t1 node) 0)))))"

text \<open>\<open>AdjustRoot\<close> returns whether the old root is to be deleted.\<close>

definition AdjustRoot :: "BPlusTree \<Rightarrow> node_ptr \<Rightarrow> bool \<times> BPlusTree" where
  "AdjustRoot t oldRootNode =
     (if \<not> IsLeafPage (deref t oldRootNode) \<and> GetSize (deref t oldRootNode) = 1 then
        (let onlyChildNode = PagePtr (ValueAt (deref t oldRootNode) 0);
             t1 = assign t onlyChildNode (SetParentPageId (deref t onlyChildNode) INVALID_PAGE_ID);
             t2 = t1\<lparr>root_page_id := GetPageId (deref t1 onlyChildNode)\<rparr>
         in (True, UpdateRootPageId t2 0))
      else if IsLeafPage (deref t oldRootNode) \<and> GetSize (deref t oldRootNode) = 0 then
        (True, t\<lparr>root_page_id := INVALID_PAGE_ID\<rparr>)
      else (False, t))"

subsection \<open>Well-formed subtrees and their keys\<close>

text \<open>
  \<open>bplus_subtree pgs h p lo hi\<close>: the page \<open>p\<close> is the root of a subtree of height \<open>h\<close>
  whose keys lie in \<open>[lo, hi)\<close> (\<open>hi = None\<close>: no upper bound). The keys of a page are
  strictly ascending; the subtree under slot \<open>i\<close> of an internal page holds the keys
  from \<open>key[i]\<close> (from \<open>lo\<close> for slot 0) up to \<open>key[i + 1]\<close> (up to \<open>hi\<close> for the last slot).
  \<open>FindPos\<close> of an internal page searches from slot 0 on, so the key stored in slot 0
  takes part in the search: it is required to be at most \<open>lo\<close>. Not every tree the
  code builds is of this kind: \<open>InsertIntoParent\<close> leaves the key of slot 0 of a new root
  at the 0 of the zeroed page, whatever the keys of the tree are.
\<close>

definition below :: "int option \<Rightarrow> int \<Rightarrow> bool" where
  "below hi k = (case hi of None \<Rightarrow> True | Some b \<Rightarrow> k < b)"

fun bplus_subtree ::
  "(page_id_t \<Rightarrow> BPlusTreePage) \<Rightarrow> nat \<Rightarrow> page_id_t \<Rightarrow> int \<Rightarrow> int option \<Rightarrow> bool" where
  "bplus_subtree pgs 0 p lo hi \<longleftrightarrow>
     IsLeafPage (pgs p) \<and> 0 \<le> cur_size (pgs p) \<and>
     sorted_wrt (<) (map fst (entries (pgs p))) \<and>
     list_all (\<lambda>k. lo \<le> k \<and> below hi k) (map fst (entries (pgs p)))"
| "bplus_subtree pgs (Suc h) p lo hi \<longleftrightarrow>
     \<not> IsLeafPage (pgs p) \<and> 1 \<le> cur_size (pgs p) \<and>
     sorted_wrt (<) (map fst (entries (pgs p))) \<and>
     fst (array (pgs p) 0) \<le> lo \<and>
     list_all (\<lambda>k. lo \<le> k \<and> below hi k) (tl (map fst (entries (pgs p)))) \<and>
     list_all (\<lambda>i. bplus_subtree pgs h (snd (array (pgs p) (int i)))
                      (if i = 0 then lo else fst (array (pgs p) (int i)))
                      (if int i + 1 < cur_size (pgs p) then Some (fst (array (pgs p) (int i + 1))) else hi))
              [0 ..< nat (cur_size (pgs p))]"

fun subtree_keys :: "(page_id_t \<Rightarrow> BPlusTreePage) \<Rightarrow> nat \<Rightarrow> page_id_t \<Rightarrow> int set" where
  "subtree_keys pgs 0 p = set (map fst (entries (pgs p)))"
| "subtree_keys pgs (Suc h) p =
     (\<Union>i \<in> set [0 ..< nat (cur_size (pgs p))]. subtree_keys pgs h (snd (array (pgs p) (int i))))"

subsection \<open>Concrete trees\<close>

text \<open>\<open>InsertFromFile\<close> inserts the keys it reads one by one, each with the record id
  made from the key; the list holds the value of \<open>key\<close> in each round of the loop. (The
  loop tests the stream before it reads, so after the last key of the file there is one
  more round, which inserts that key again.)\<close>

fun InsertFromFile :: "BPlusTree \<Rightarrow> int list \<Rightarrow> (error + BPlusTree) option" where
  "InsertFromFile t [] = Some (Inr t)"
| "InsertFromFile t (key # keys) =
     (case BPlusTree_Insert t key key of
        None \<Rightarrow> None
      | Some (Inl e) \<Rightarrow> Some (Inl e)
      | Some (Inr (_, t')) \<Rightarrow> InsertFromFile t' keys)"

text \<open>An empty index with leaf and internal maximum size 3; page 0 is the header
  page, so the pool hands out the pages 1, 2, 3, \dots\<close>

definition tree0 :: BPlusTree where
  "tree0 = \<lparr>index_name = ''idx'', root_page_id = INVALID_PAGE_ID, leaf_max_size = 3, internal_max_size = 3,
            tree_pages = (\<lambda>_. zero_node), mem = zero_node, bpm_next_page_id = 1, header_page = []\<rparr>"

text \<open>\<open>tree0\<close> after the keys 1 and 2 were inserted: the root is the leaf in page 1.\<close>

definition tree2 :: BPlusTree where
  "tree2 = \<lparr>index_name = ''idx'', root_page_id = 1, leaf_max_size = 3, internal_max_size = 3,
            tree_pages = (\<lambda>_. zero_node)
              (1 := \<lparr>page_type = LEAF_PAGE, cur_size = 2, max_size = 3, parent_page_id = -1,
                      node_page_id = 1, next_leaf_page_id = -1,
                      array = (\<lambda>_. (0, 0))(0 := (1, 1), 1 := (2, 2))\<rparr>),
            mem = zero_node, bpm_next_page_id = 2, header_page = []\<rparr>"

text \<open>\<open>tree2\<close> after the key 3 was inserted and the leaf was split: the leaves are the
  pages 1 and 2 (page 1 keeps the moved entries in the slots beyond its size), the root
  \<open>root3\<close> is page 3.\<close>

definition root3 :: BPlusTreePage where
  "root3 = \<lparr>page_type = INTERNAL_PAGE, cur_size = 2, max_size = 3, parent_page_id = -1,
            node_page_id = 3, next_leaf_page_id = 0,
            array = (\<lambda>_. (0, 0))(0 := (0, 1), 1 := (2, 2))\<rparr>"

definition tree3 :: BPlusTree where
  "tree3 = \<lparr>index_name = ''idx'', root_page_id = 3, leaf_max_size = 3, internal_max_size = 3,
            tree_pages = (\<lambda>_. zero_node)
              (1 := \<lparr>page_type = LEAF_PAGE, cur_size = 1, max_size = 3, parent_page_id = 3,
                      node_page_id = 1, next_leaf_page_id = 2,
                      array = (\<lambda>_. (0, 0))(0 := (1, 1), 1 := (2, 2), 2 := (3, 3))\<rparr>,
               2 := \<lparr>page_type = LEAF_PAGE, cur_size = 2, max_size = 3, parent_page_id = 3,
                      node_page_id = 2, next_leaf_page_id = -1,
                      array = (\<lambda>_. (0, 0))(0 := (2, 2), 1 := (3, 3))\<rparr>,
               3 := root3),
            mem = zero_node, bpm_next_page_id = 4, header_page = []\<rparr>"

text \<open>
  \<open>tree0\<close> after the keys -5, -4 and -3 were inserted: the leaf in page 1 holds -5 (and
  keeps the moved entries in the slots beyond its size), the leaf in page 2 holds -4 and
  -3, and the root in page 3 has the separator -4 in slot 1. The key of slot 0 is the 0
  of the zeroed page: \<open>InsertIntoParent\<close> does not write it.
\<close>

definition root_neg3 :: BPlusTreePage where
  "root_neg3 = \<lparr>page_type = INTERNAL_PAGE, cur_size = 2, max_size = 3, parent_page_id = -1,
            node_page_id = 3, next_leaf_page_id = 0,
            array = (\<lambda>_. (0, 0))(0 := (0, 1), 1 := (-4, 2))\<rparr>"

definition tree_neg3 :: BPlusTree where
  "tree_neg3 = \<lparr>index_name = ''idx'', root_page_id = 3, leaf_max_size = 3, internal_max_size = 3,
            tree_pages = (\<lambda>_. zero_node)
              (1 := \<lparr>page_type = LEAF_PAGE, cur_size = 1, max_size = 3, parent_page_id = 3,
                      node_page_id = 1, next_leaf_page_id = 2,
                      array = (\<lambda>_. (0, 0))(0 := (-5, -5), 1 := (-4, -4), 2 := (-3, -3))\<rparr>,
               2 := \<lparr>page_type = LEAF_PAGE, cur_size = 2, max_size = 3, parent_page_id = 3,
                      node_page_id = 2, next_leaf_page_id = -1,
                      array = (\<lambda>_. (0, 0))(0 := (-4, -4), 1 := (-3, -3))\<rparr>,
               3 := root_neg3),
            mem = zero_node, bpm_next_page_id = 4, header_page = []\<rparr>"

text \<open>
  Two leaves under the parent in page 3, with leaf maximum size 4 (minimum size 2).
  In \<open>tree_right\<close> the leaf in page 1 has fallen to one entry and its right sibling in
  page 2 holds three; in \<open>tree_left\<close> the leaf in page 2 has fallen to one entry and its
  left sibling in page 1 holds three.
\<close>

definition tree_right :: BPlusTree where
  "tree_right = \<lparr>index_name = ''idx'', root_page_id = 3, leaf_max_size = 4, internal_max_size = 4,
            tree_pages = (\<lambda>_. zero_node)
              (1 := \<lparr>page_type = LEAF_PAGE, cur_size = 1, max_size = 4, parent_page_id = 3,
                      node_page_id = 1, next_leaf_page_id = 2,
                      array = (\<lambda>_. (0, 0))(0 := (1, 10))\<rparr>,
               2 := \<lparr>page_type = LEAF_PAGE, cur_size = 3, max_size = 4, parent_page_id = 3,
                      node_page_id = 2, next_leaf_page_id = -1,
                      array = (\<lambda>_. (0, 0))(0 := (5, 50), 1 := (6, 60), 2 := (7, 70))\<rparr>,
               3 := \<lparr>page_type = INTERNAL_PAGE, cur_size = 2, max_size = 4, parent_page_id = -1,
                      node_page_id = 3, next_leaf_page_id = 0,
                      array = (\<lambda>_. (0, 0))(0 := (0, 1), 1 := (5, 2))\<rparr>),
            mem = zero_node, bpm_next_page_id = 4, header_page = []\<rparr>"

definition tree_left :: BPlusTree where
  "tree_left = \<lparr>index_name = ''idx'', root_page_id = 3, leaf_max_size = 4, internal_max_size = 4,
            tree_pages = (\<lambda>_. zero_node)
              (1 := \<lparr>page_type = LEAF_PAGE, cur_size = 3, max_size = 4, parent_page_id = 3,
                      node_page_id = 1, next_leaf_page_id = 2,
                      array = (\<lambda>_. (0, 0))(0 := (1, 10), 1 := (2, 20), 2 := (3, 30))\<rparr>,
               2 := \<lparr>page_type = LEAF_PAGE, cur_size = 1, max_size = 4, parent_page_id = 3,
                      node_page_id = 2, next_leaf_page_id = -1,
                      array = (\<lambda>_. (0, 0))(0 := (7, 70))\<rparr>,
               3 := \<lparr>page_type = INTERNAL_PAGE, cur_size = 2, max_size = 4, parent_page_id = -1,
                      node_page_id = 3, next_leaf_page_id = 0,
                      array = (\<lambda>_. (0, 0))(0 := (0, 1), 1 := (5, 2))\<rparr>),
            mem = zero_node, bpm_next_page_id = 4, header_page = []\<rparr>"

section \<open>Theorems: the replacer\<close>

subsection \<open>The loop of Evict\<close>








subsection \<open>C4: the victim of Evict\<close>


lemma replacer_invD:
  assumes "replacer_inv r"
  shows "distinct (map fst (frameRecords r))"
    and "fst ` set (frameRecords r) = dom (frameEvictable r)"
    and "0 < lruk_k r"
    and "current_timestamp r < maxTimestamp r"
    and "\<And>it. it \<in> set (frameRecords r) \<Longrightarrow> snd it \<noteq> []"
    and "\<And>it. it \<in> set (frameRecords r) \<Longrightarrow> length (snd it) \<le> lruk_k r"
    and "\<And>it t. it \<in> set (frameRecords r) \<Longrightarrow> t \<in> set (snd it) \<Longrightarrow> t \<le> current_timestamp r"
  using assms unfolding replacer_inv_def by blast+








subsection \<open>What the operations of the replacer do to the tracked frames\<close>

lemma keys_queue_push [simp]: "map fst (queue_push f ts recs) = map fst recs"
  by (induction recs) (auto simp: queue_push_def)

lemma keys_queue_trim [simp]: "map fst (queue_trim k f recs) = map fst recs"
  by (induction recs) (auto simp: queue_trim_def)

lemma set_keys_map: "fst ` set recs = set (map fst recs)"
  by simp

text \<open>The loop of Evict only ever selects an evictable tracked frame.\<close>

lemma Evict_body_sel:
  assumes "Evict_body k it (m, fl, fid, ev) = Inr (m', fl', fid', ev')" "ev (fst it) \<noteq> None"
  shows "ev' = ev \<and> ((m', fid') = (m, fid) \<or> (fid' = fst it \<and> ev (fst it) = Some True))"
  using assms
  by (auto simp: Evict_body_def split: option.splits bool.splits list.splits if_splits)

lemma Evict_loop_sel:
  assumes "Evict_loop k recs (m, fl, fid, ev) = Inr (m', fl', fid', ev')"
    and "\<forall>it \<in> set recs. ev (fst it) \<noteq> None"
  shows "ev' = ev \<and> ((m', fid') = (m, fid) \<or> (fid' \<in> fst ` set recs \<and> ev fid' = Some True))"
  using assms
proof (induction recs arbitrary: m fl fid)
  case Nil
  then show ?case by simp
next
  case (Cons it recs)
  from Cons.prems(1) obtain m1 fl1 fid1 ev1 where
    b: "Evict_body k it (m, fl, fid, ev) = Inr (m1, fl1, fid1, ev1)"
    and l: "Evict_loop k recs (m1, fl1, fid1, ev1) = Inr (m', fl', fid', ev')"
    by (auto split: sum.splits)
  from Evict_body_sel[OF b] Cons.prems(2)
  have e1: "ev1 = ev" and s1: "(m1, fid1) = (m, fid) \<or> (fid1 = fst it \<and> ev (fst it) = Some True)"
    by auto
  from Cons.IH[OF l[unfolded e1]] Cons.prems(2)
  have "ev' = ev" and s2: "(m', fid') = (m1, fid1) \<or> (fid' \<in> fst ` set recs \<and> ev fid' = Some True)"
    by auto
  with s1 show ?case by auto
qed

lemma Evict_effect:
  assumes "Evict r fid0 = Inr (b, f, r')"
    and "\<forall>it \<in> set (frameRecords r). frameEvictable r (fst it) \<noteq> None"
  shows "if b then f \<in> fst ` set (frameRecords r) \<and> frameEvictable r f = Some True \<and>
                   r' = r\<lparr>frameRecords := filter (\<lambda>it. fst it \<noteq> f) (frameRecords r),
                          frameEvictable := (frameEvictable r)(f := None),
                          evictableNum := evictableNum r - 1\<rparr>
         else r' = r"
proof -
  from assms(1) obtain m fl fid ev where
    l: "Evict_loop (lruk_k r) (frameRecords r) (maxTimestamp r, False, fid0, frameEvictable r) = Inr (m, fl, fid, ev)"
    by (auto simp: Evict_def split: sum.splits)
  from Evict_loop_sel[OF l assms(2)]
  have ev: "ev = frameEvictable r"
    and sel: "(m, fid) = (maxTimestamp r, fid0) \<or> (fid \<in> fst ` set (frameRecords r) \<and> frameEvictable r fid = Some True)"
    by auto
  show ?thesis
  proof (cases "m = maxTimestamp r")
    case True
    then show ?thesis using assms(1) l ev by (simp add: Evict_def)
  next
    case False
    with sel have t: "fid \<in> fst ` set (frameRecords r)" "frameEvictable r fid = Some True" by auto
    then show ?thesis using assms(1) l ev False by (auto simp: Evict_def Remove_def)
  qed
qed

lemma RecordAccess_effect:
  assumes "RecordAccess r f = Inr r'"
  shows "map fst (frameRecords r') =
           (if f \<in> fst ` set (frameRecords r) then map fst (frameRecords r) else map fst (frameRecords r) @ [f])"
    and "frameEvictable r' =
           (if f \<in> fst ` set (frameRecords r) then frameEvictable r else (frameEvictable r)(f \<mapsto> True))"
    and "replacer_size r' = replacer_size r"
    and "\<not> (length (frameRecords r) = replacer_size r \<and> f \<notin> fst ` set (frameRecords r))"
  using assms
  by (auto simp: RecordAccess_def records_count_def Let_def split: if_splits)

lemma touch_frame_effect:
  assumes "touch_frame r f = Inr r'"
  shows "map fst (frameRecords r') =
           (if f \<in> fst ` set (frameRecords r) then map fst (frameRecords r) else map fst (frameRecords r) @ [f])"
    and "frameEvictable r' = (frameEvictable r)(f \<mapsto> False)"
    and "replacer_size r' = replacer_size r"
proof -
  from assms(1) obtain r1 where r1: "RecordAccess r f = Inr r1" "SetEvictable r1 f False = Inr r'"
    by (auto simp: touch_frame_def split: sum.splits)
  note ra = RecordAccess_effect[OF r1(1)]
  from r1(2) have se: "frameRecords r' = frameRecords r1" "frameEvictable r' = (frameEvictable r1)(f \<mapsto> False)"
    "replacer_size r' = replacer_size r1"
    by (auto simp: SetEvictable_def Let_def split: option.splits)
  show "map fst (frameRecords r') =
           (if f \<in> fst ` set (frameRecords r) then map fst (frameRecords r) else map fst (frameRecords r) @ [f])"
    using ra(1) se(1) by simp
  show "frameEvictable r' = (frameEvictable r)(f \<mapsto> False)"
    using ra(2) se(2) by auto
  show "replacer_size r' = replacer_size r" using ra(3) se(3) by simp
qed

subsection \<open>The invariant of the replacer is kept by its operations\<close>

text \<open>\<open>replacer6\<close> is the replacer of scenario 6 after its six accesses.\<close>

lemma replacer6_reached:
  "RecordAccesses (new_LRUKReplacer 3 2 (2 ^ 64 - 1)) [1, 2, 3, 1, 2, 1] = Inr replacer6"
  by (simp add: new_LRUKReplacer_def replacer6_def RecordAccess_def unsigned_of_def records_count_def
      queue_push_def queue_trim_def Let_def fun_upd_twist)

lemma replacer_inv_new: "0 < k \<Longrightarrow> 0 < maxTs \<Longrightarrow> replacer_inv (new_LRUKReplacer n k maxTs)"
  by (simp add: replacer_inv_def new_LRUKReplacer_def)

lemma replacer_inv_removed:
  assumes "replacer_inv r"
  shows "replacer_inv (r\<lparr>frameRecords := filter (\<lambda>it. fst it \<noteq> f) (frameRecords r),
                          frameEvictable := (frameEvictable r)(f := None),
                          evictableNum := n\<rparr>)"
proof -
  note i = replacer_invD[OF assms]
  have "fst ` set (filter (\<lambda>it. fst it \<noteq> f) (frameRecords r)) = dom (frameEvictable r) - {f}"
    using i(2) by auto
  then show ?thesis
    unfolding replacer_inv_def using i by (auto simp: distinct_map_filter)
qed

lemma replacer_inv_Remove:
  "replacer_inv r \<Longrightarrow> Remove r f = Inr r' \<Longrightarrow> replacer_inv r'"
  by (auto simp: Remove_def replacer_inv_removed split: option.splits bool.splits)

lemma replacer_inv_Evict:
  assumes "replacer_inv r" "Evict r fid = Inr (b, f, r')"
  shows "replacer_inv r'"
proof -
  have "\<forall>it \<in> set (frameRecords r). frameEvictable r (fst it) \<noteq> None"
    using replacer_invD(2)[OF assms(1)] by auto
  from Evict_effect[OF assms(2) this] show ?thesis
    using assms(1) replacer_inv_removed[OF assms(1)] by (cases b) auto
qed

lemma replacer_inv_SetEvictable:
  assumes "replacer_inv r" "SetEvictable r f b = Inr r'"
  shows "replacer_inv r'"
proof -
  from assms(2) obtain c n where "frameEvictable r f = Some c"
    "r' = r\<lparr>evictableNum := n, frameEvictable := (frameEvictable r)(f \<mapsto> b)\<rparr>"
    by (auto simp: SetEvictable_def Let_def split: option.splits)
  then show ?thesis using assms(1) unfolding replacer_inv_def by auto
qed


lemma trim_push:
  "queue_trim k f (queue_push f ts recs) =
   map (\<lambda>it0. if fst it0 = f
                 then (f, if length (snd it0 @ [ts]) > k then tl (snd it0 @ [ts]) else snd it0 @ [ts])
                 else it0) recs"
  by (induction recs) (auto simp: queue_trim_def queue_push_def)

lemma replacer_inv_record:
  assumes inv: "replacer_inv r1" and ts: "current_timestamp r1 + 1 < maxTimestamp r1"
  shows "replacer_inv
    ((let r2 = (if records_count r1 f = 0
                       then r1\<lparr>frameRecords := frameRecords r1 @ [(f, [])],
                               frameEvictable := (frameEvictable r1)(f \<mapsto> True),
                               evictableNum := evictableNum r1 + 1\<rparr>
                       else r1);
          ts = current_timestamp r2 + 1;
          r3 = r2\<lparr>current_timestamp := ts,
                  frameRecords := queue_push f ts (frameRecords r2)\<rparr>
      in r3\<lparr>frameRecords := queue_trim (lruk_k r3) f (frameRecords r3)\<rparr>))"
    (is "replacer_inv ?r'")
proof -
  note i = replacer_invD[OF inv]
  let ?k = "lruk_k r1" and ?ts = "current_timestamp r1 + 1"
  let ?recs2 = "if f \<in> fst ` set (frameRecords r1) then frameRecords r1 else frameRecords r1 @ [(f, [])]"
  have recs: "frameRecords ?r' = queue_trim ?k f (queue_push f ?ts ?recs2)"
    by (simp add: Let_def records_count_def)
  have other: "lruk_k ?r' = ?k" "current_timestamp ?r' = ?ts" "maxTimestamp ?r' = maxTimestamp r1"
    "frameEvictable ?r' = (if f \<in> fst ` set (frameRecords r1) then frameEvictable r1
                           else (frameEvictable r1)(f \<mapsto> True))"
    by (simp_all add: Let_def records_count_def)
  have keys: "map fst (frameRecords ?r') = map fst ?recs2" unfolding recs by simp
  have q: "snd it \<noteq> [] \<and> length (snd it) \<le> ?k \<and> (\<forall>t \<in> set (snd it). t \<le> ?ts)"
    if a: "it \<in> set (frameRecords ?r')" for it
  proof -
    let ?g = "\<lambda>it0. if fst it0 = f
                 then (f, if length (snd it0 @ [?ts]) > ?k then tl (snd it0 @ [?ts]) else snd it0 @ [?ts])
                 else it0"
    have "it \<in> ?g ` set ?recs2" using a unfolding recs trim_push by (simp only: set_map)
    then obtain it0 where it0: "it0 \<in> set ?recs2" and it: "it = ?g it0" by (rule imageE)
    have old: "length (snd it0) \<le> ?k \<and> (\<forall>t \<in> set (snd it0). t \<le> current_timestamp r1) \<and>
               (fst it0 \<noteq> f \<longrightarrow> snd it0 \<noteq> [])"
    proof (cases "it0 \<in> set (frameRecords r1)")
      case True
      then show ?thesis using i(5)[OF True] i(6)[OF True] i(7)[OF True] by blast
    next
      case False
      then have "it0 = (f, [])" using it0 by (simp split: if_splits)
      then show ?thesis by simp
    qed
    show ?thesis
    proof (cases "fst it0 = f")
      case False
      then show ?thesis using it old by auto
    next
      case True
      show ?thesis
      proof (cases "length (snd it0 @ [?ts]) > ?k")
        case False
        then show ?thesis using it True old by auto
      next
        case gt: True
        then have "snd it = tl (snd it0 @ [?ts])" using it True by simp
        moreover have "tl (snd it0 @ [?ts]) \<noteq> []" using gt i(3) by (cases "snd it0") auto
        moreover have "length (tl (snd it0 @ [?ts])) \<le> ?k" using old by simp
        moreover have "\<forall>t \<in> set (tl (snd it0 @ [?ts])). t \<le> ?ts"
          using old by (cases "snd it0") auto
        ultimately show ?thesis by simp
      qed
    qed
  qed
  show ?thesis
    unfolding replacer_inv_def
  proof (intro conjI ballI)
    show "distinct (map fst (frameRecords ?r'))" unfolding keys using i(1) by auto
    show "fst ` set (frameRecords ?r') = dom (frameEvictable ?r')"
      unfolding set_keys_map keys other using i(2) by auto
    show "0 < lruk_k ?r'" using other i(3) by simp
    show "current_timestamp ?r' < maxTimestamp ?r'" using other ts by simp
  next
    fix it assume a: "it \<in> set (frameRecords ?r')"
    from q[OF a] show "snd it \<noteq> []" "length (snd it) \<le> lruk_k ?r'" using other by simp_all
  next
    fix it t assume a: "it \<in> set (frameRecords ?r')" "t \<in> set (snd it)"
    from q[OF a(1)] a(2) show "t \<le> current_timestamp ?r'" using other by simp
  qed
qed

lemma replacer_inv_RecordAccess:
  assumes inv: "replacer_inv r" and ts: "current_timestamp r + 1 < maxTimestamp r"
    and ra: "RecordAccess r f = Inr r'"
  shows "replacer_inv r'"
proof -
  from ra have "r' = (let r2 = (if records_count r f = 0
                       then r\<lparr>frameRecords := frameRecords r @ [(f, [])],
                               frameEvictable := (frameEvictable r)(f \<mapsto> True),
                               evictableNum := evictableNum r + 1\<rparr>
                       else r);
          ts = current_timestamp r2 + 1;
          r3 = r2\<lparr>current_timestamp := ts,
                  frameRecords := queue_push f ts (frameRecords r2)\<rparr>
      in r3\<lparr>frameRecords := queue_trim (lruk_k r3) f (frameRecords r3)\<rparr>)"
    by (auto simp: RecordAccess_def split: if_splits)
  then show ?thesis using replacer_inv_record[OF inv ts, of f] by simp
qed

section \<open>Theorems: the buffer pool\<close>

lemmas pool_defs = NewPgImp_def FetchPgImp_def UnpinPgImp_def DeletePgImp_def AllocatePage_def
  acquire_frame_def touch_frame_def RecordAccess_def SetEvictable_def Remove_def
  HashTable_Find_def HashTable_Insert_def HashTable_Remove_def unsigned_of_def records_count_def
  queue_push_def queue_trim_def ResetMemory_def DeallocatePage_def WritePage_def ReadPage_def

subsection \<open>The run of the one-frame pool\<close>

lemma pool1_reached: "NewPgImp pool0 = Inr (Some (0, 0), pool1)"
  by (simp add: pool0_def pool1_def disk0_def pool_defs
      new_BufferPoolManagerInstance_def new_LRUKReplacer_def new_Page_def INVALID_PAGE_ID_def)

lemma pool2_reached: "UnpinPgImp pool1 0 True = Inr (True, pool2)"
  by (simp add: pool1_def pool2_def pool_defs)

lemma pool3_reached: "DeletePgImp pool2 0 = Inr (True, pool3)"
  by (simp add: pool2_def pool3_def disk0_def pool_defs)

lemma pool4_reached: "NewPgImp pool3 = Inr (Some (1, 0), pool4)"
  by (simp add: pool3_def pool4_def pool_defs)

subsection \<open>The invariant holds in every reachable state\<close>

lemma tracked_below_capacity:
  assumes "distinct (map fst recs)" "\<forall>g \<in> fst ` set recs. 0 \<le> g \<and> g < int n"
    and "0 \<le> f" "f < int n" "f \<notin> fst ` set recs"
  shows "length recs < n"
proof -
  have "length recs = card (set (map fst recs))"
    using distinct_card[OF assms(1)] by simp
  also have "set (map fst recs) \<subseteq> {0 ..< int n} - {f}" using assms(2,5) by auto
  then have "card (set (map fst recs)) \<le> card ({0 ..< int n} - {f})"
    by (intro card_mono) auto
  also have "card ({0 ..< int n} - {f}) = n - 1" using assms(3,4) by simp
  finally show ?thesis using assms(3,4) by simp
qed

text \<open>Recording a frame of the pool that the replacer does not track never hits the
  full-replacer branch nor an assertion.\<close>

lemma touch_frame_succeeds:
  assumes "distinct (map fst (frameRecords r))"
    and "\<forall>g \<in> fst ` set (frameRecords r). 0 \<le> g \<and> g < int (replacer_size r)"
    and "0 \<le> f" "f < int (replacer_size r)" "f \<notin> fst ` set (frameRecords r)"
  shows "\<exists>rep. touch_frame r f = Inr rep"
proof -
  have cap: "length (frameRecords r) < replacer_size r"
    by (rule tracked_below_capacity[OF assms])
  have "f mod 2 ^ 32 \<le> f" using assms(3) by (simp add: zmod_le_nonneg_dividend)
  then have u: "unsigned_of f \<le> replacer_size r" using assms(3,4) by (simp add: unsigned_of_def)
  show ?thesis
    using cap u assms(5)
    by (simp add: touch_frame_def RecordAccess_def SetEvictable_def records_count_def Let_def)
qed

lemma pool_invD:
  assumes "pool_inv s"
  shows "replacer_size (replacer s) = pool_size s"
    and "distinct (map fst (frameRecords (replacer s)))"
    and "tracked (replacer s) = dom (frameEvictable (replacer s))"
    and "\<And>f. f \<in> tracked (replacer s) \<Longrightarrow> 0 \<le> f \<and> f < int (pool_size s)"
    and "distinct (free_list s)"
    and "\<And>f. f \<in> set (free_list s) \<Longrightarrow> 0 \<le> f \<and> f < int (pool_size s) \<and> f \<notin> tracked (replacer s)"
    and "\<And>f. 0 \<le> pin_count (pages s f)"
    and "\<And>p f. page_table s p = Some f \<Longrightarrow>
            f \<in> tracked (replacer s) \<and> page_id (pages s f) = p \<and>
            (pin_count (pages s f) = 0 \<longleftrightarrow> frameEvictable (replacer s) f = Some True)"
  using assms unfolding pool_inv_def by blast+

lemma pool_invI:
  assumes "replacer_size (replacer s) = pool_size s"
    and "distinct (map fst (frameRecords (replacer s)))"
    and "tracked (replacer s) = dom (frameEvictable (replacer s))"
    and "\<And>f. f \<in> tracked (replacer s) \<Longrightarrow> 0 \<le> f \<and> f < int (pool_size s)"
    and "distinct (free_list s)"
    and "\<And>f. f \<in> set (free_list s) \<Longrightarrow> 0 \<le> f \<and> f < int (pool_size s) \<and> f \<notin> tracked (replacer s)"
    and "\<And>f. 0 \<le> pin_count (pages s f)"
    and "\<And>p f. page_table s p = Some f \<Longrightarrow>
            f \<in> tracked (replacer s) \<and> page_id (pages s f) = p \<and>
            (pin_count (pages s f) = 0 \<longleftrightarrow> frameEvictable (replacer s) f = Some True)"
  shows "pool_inv s"
  using assms unfolding pool_inv_def by blast

lemma pool_inv_install:
  assumes inv: "pool_inv (s\<lparr>free_list := f # free_list s\<rparr>)"
    and tf: "touch_frame (replacer s) f = Inr rep"
    and pg: "pin_count pg' = pin_count (pages s f) + 1" "page_id pg' = p"
  shows "pool_inv (s\<lparr>page_table := (page_table s)(p \<mapsto> f), replacer := rep,
                      pages := (pages s)(f := pg'), disk_manager := dm\<rparr>)"
proof -
  let ?r = "replacer s"
  let ?s' = "s\<lparr>page_table := (page_table s)(p \<mapsto> f), replacer := rep,
                      pages := (pages s)(f := pg'), disk_manager := dm\<rparr>"
  note i = pool_invD[OF inv, simplified]
  have f: "0 \<le> f" "f < int (pool_size s)" "f \<notin> tracked ?r" "f \<notin> set (free_list s)"
    using i(5,6) by auto
  note te = touch_frame_effect[OF tf]
  have k: "map fst (frameRecords rep) = map fst (frameRecords ?r) @ [f]"
    using te(1) f(3) by (simp add: tracked_def)
  have ks: "tracked rep = insert f (tracked ?r)"
    unfolding tracked_def set_keys_map k by simp
  show ?thesis
  proof (rule pool_invI)
    show "replacer_size (replacer ?s') = pool_size ?s'" using te(3) i(1) by simp
    show "distinct (map fst (frameRecords (replacer ?s')))"
      using k i(2) f(3) by (simp add: tracked_def)
    show "tracked (replacer ?s') = dom (frameEvictable (replacer ?s'))"
      using ks te(2) i(3) by simp
    show "\<And>g. g \<in> tracked (replacer ?s') \<Longrightarrow> 0 \<le> g \<and> g < int (pool_size ?s')"
      using ks i(4) f by auto
    show "distinct (free_list ?s')" using i(5) by simp
    show "\<And>g. g \<in> set (free_list ?s') \<Longrightarrow> 0 \<le> g \<and> g < int (pool_size ?s') \<and> g \<notin> tracked (replacer ?s')"
      using ks i(6) f(4) by auto
    show "\<And>g. 0 \<le> pin_count (pages ?s' g)"
      using i(7)[of f] i(7) pg(1) by simp
  next
    fix q g assume a: "page_table ?s' q = Some g"
    show "g \<in> tracked (replacer ?s') \<and> page_id (pages ?s' g) = q \<and>
            (pin_count (pages ?s' g) = 0 \<longleftrightarrow> frameEvictable (replacer ?s') g = Some True)"
    proof (cases "q = p")
      case True
      then have "g = f" using a by simp
      then show ?thesis using True ks te(2) pg i(7)[of f] by simp
    next
      case False
      then have m: "page_table s q = Some g" using a by simp
      from i(8)[OF m] have "g \<noteq> f" using f(3) by auto
      then show ?thesis using i(8)[OF m] ks te(2) by simp
    qed
  qed
qed


lemma pool_inv_cong:
  assumes inv: "pool_inv s"
    and e: "pool_size s' = pool_size s" "replacer s' = replacer s" "set (free_list s') = set (free_list s)"
      "distinct (free_list s')" "page_table s' = page_table s"
      "\<And>f. pin_count (pages s' f) = pin_count (pages s f)"
      "\<And>f. page_id (pages s' f) = page_id (pages s f)"
  shows "pool_inv s'"
proof (rule pool_invI)
  note i = pool_invD[OF inv]
  show "replacer_size (replacer s') = pool_size s'" using i(1) e(1,2) by simp
  show "distinct (map fst (frameRecords (replacer s')))" using i(2) e(2) by simp
  show "tracked (replacer s') = dom (frameEvictable (replacer s'))" using i(3) e(2) by simp
  show "\<And>f. f \<in> tracked (replacer s') \<Longrightarrow> 0 \<le> f \<and> f < int (pool_size s')"
    using i(4) e(1,2) by simp
  show "distinct (free_list s')" by (rule e(4))
  show "\<And>f. f \<in> set (free_list s') \<Longrightarrow> 0 \<le> f \<and> f < int (pool_size s') \<and> f \<notin> tracked (replacer s')"
    using i(6) e(1,2,3) by simp
  show "\<And>f. 0 \<le> pin_count (pages s' f)" using i(7) e(6) by simp
  show "\<And>p f. page_table s' p = Some f \<Longrightarrow>
            f \<in> tracked (replacer s') \<and> page_id (pages s' f) = p \<and>
            (pin_count (pages s' f) = 0 \<longleftrightarrow> frameEvictable (replacer s') f = Some True)"
    using i(8) e(2,5,6,7) by simp
qed

lemma acquire_frame_None:
  assumes "pool_inv s" "acquire_frame s = Inr (None, s')"
  shows "s' = s"
proof -
  from assms(2) obtain fid rep where e: "Evict (replacer s) (-1) = Inr (False, fid, rep)" "s' = s\<lparr>replacer := rep\<rparr>"
    by (auto simp: acquire_frame_def Let_def split: if_splits sum.splits)
  have "\<forall>it \<in> set (frameRecords (replacer s)). frameEvictable (replacer s) (fst it) \<noteq> None"
    using pool_invD(3)[OF assms(1)] by (auto simp: tracked_def)
  from Evict_effect[OF e(1) this] have "rep = replacer s" by simp
  then show ?thesis using e(2) by simp
qed

lemma acquire_frame_Some:
  assumes inv: "pool_inv s" and a: "acquire_frame s = Inr (Some f, s1)"
  shows "pool_inv (s1\<lparr>free_list := f # free_list s1\<rparr>)"
proof (cases "free_list s = []")
  case False
  then have s1: "s1 = s\<lparr>free_list := butlast (free_list s)\<rparr>" and f: "f = last (free_list s)"
    using a by (auto simp: acquire_frame_def)
  have fl: "free_list s = butlast (free_list s) @ [f]" using False f by simp
  have "set (f # butlast (free_list s)) = set (free_list s)"
    by (subst (2) fl) auto
  moreover have "distinct (f # butlast (free_list s))"
    using pool_invD(5)[OF inv] by (subst (asm) fl) auto
  ultimately show ?thesis
    using s1 by (intro pool_inv_cong[OF inv]) simp_all
next
  case True
  let ?r = "replacer s"
  from a True obtain rep where e: "Evict ?r (-1) = Inr (True, f, rep)"
    by (auto simp: acquire_frame_def Let_def split: if_splits sum.splits)
  have known: "\<forall>it \<in> set (frameRecords ?r). frameEvictable ?r (fst it) \<noteq> None"
    using pool_invD(3)[OF inv] by (auto simp: tracked_def)
  from Evict_effect[OF e known]
  have ft: "f \<in> tracked ?r" and fe: "frameEvictable ?r f = Some True"
    and rep: "rep = ?r\<lparr>frameRecords := filter (\<lambda>it. fst it \<noteq> f) (frameRecords ?r),
                          frameEvictable := (frameEvictable ?r)(f := None),
                          evictableNum := evictableNum ?r - 1\<rparr>"
    by (simp_all add: tracked_def)
  let ?last = "page_id (pages s f)"
  from a True e have s1: "replacer s1 = rep" "free_list s1 = []" "pool_size s1 = pool_size s"
    "page_table s1 = (page_table s)(?last := None)"
    "\<And>g. pin_count (pages s1 g) = pin_count (pages s g)"
    "\<And>g. g \<noteq> f \<Longrightarrow> page_id (pages s1 g) = page_id (pages s g)"
    by (auto simp: acquire_frame_def Let_def HashTable_Remove_def ResetMemory_def WritePage_def)
  note i = pool_invD[OF inv]
  have tr: "tracked rep = tracked ?r - {f}" using rep by (auto simp: tracked_def)
  let ?s' = "s1\<lparr>free_list := f # free_list s1\<rparr>"
  show ?thesis
  proof (rule pool_invI)
    show "replacer_size (replacer ?s') = pool_size ?s'" using s1 rep i(1) by simp
    show "distinct (map fst (frameRecords (replacer ?s')))"
      using s1 rep i(2) by (simp add: distinct_map_filter)
    show "tracked (replacer ?s') = dom (frameEvictable (replacer ?s'))"
      using s1(1) tr i(3) rep by auto
    show "\<And>g. g \<in> tracked (replacer ?s') \<Longrightarrow> 0 \<le> g \<and> g < int (pool_size ?s')"
      using s1 tr i(4) by simp
    show "distinct (free_list ?s')" using s1 by simp
    show "\<And>g. g \<in> set (free_list ?s') \<Longrightarrow> 0 \<le> g \<and> g < int (pool_size ?s') \<and> g \<notin> tracked (replacer ?s')"
      using s1 tr i(4)[OF ft] by simp
    show "\<And>g. 0 \<le> pin_count (pages ?s' g)" using s1(5) i(7) by simp
  next
    fix q g assume m: "page_table ?s' q = Some g"
    then have q: "q \<noteq> ?last" "page_table s q = Some g" using s1(4) by (auto split: if_splits)
    from i(8)[OF q(2)] q(1) have gf: "g \<noteq> f" by auto
    show "g \<in> tracked (replacer ?s') \<and> page_id (pages ?s' g) = q \<and>
            (pin_count (pages ?s' g) = 0 \<longleftrightarrow> frameEvictable (replacer ?s') g = Some True)"
      using i(8)[OF q(2)] gf s1 tr rep by simp
  qed
qed

lemma pool_inv_init: "pool_inv (new_BufferPoolManagerInstance n dm k maxTs)"
  by (auto simp: pool_inv_def new_BufferPoolManagerInstance_def new_LRUKReplacer_def tracked_def
      new_Page_def distinct_map inj_on_def)

lemma NewPgImp_inv:
  assumes inv: "pool_inv s" and n: "NewPgImp s = Inr (res, s')"
  shows "pool_inv s'"
proof -
  let ?s = "s\<lparr>next_page_id := next_page_id s + 1\<rparr>"
  have inv0: "pool_inv ?s" by (rule pool_inv_cong[OF inv]) (simp_all add: pool_invD(5)[OF inv])
  show ?thesis
  proof (cases res)
    case None
    with n obtain s1 where "acquire_frame ?s = Inr (None, s1)" "s' = s1"
      by (auto simp: NewPgImp_def AllocatePage_def Let_def split: sum.splits option.splits)
    with acquire_frame_None[OF inv0] inv0 show ?thesis by simp
  next
    case (Some a)
    with n obtain f s1 rep where af: "acquire_frame ?s = Inr (Some f, s1)"
      and tf: "touch_frame (replacer s1) f = Inr rep"
      and s': "s' = s1\<lparr>page_table := (page_table s1)(next_page_id s \<mapsto> f), replacer := rep,
                      pages := (pages s1)(f := (pages s1 f)\<lparr>pin_count := pin_count (pages s1 f) + 1,
                                                           page_id := next_page_id s\<rparr>),
                      disk_manager := disk_manager s1\<rparr>"
      by (auto simp: NewPgImp_def AllocatePage_def Let_def HashTable_Insert_def
          split: sum.splits option.splits)
    show ?thesis unfolding s'
      by (rule pool_inv_install[OF acquire_frame_Some[OF inv0 af] tf]) simp_all
  qed
qed

lemma FetchPgImp_inv:
  assumes inv: "pool_inv s" and n: "FetchPgImp s p = Inr (res, s')"
  shows "pool_inv s'"
proof (cases "HashTable_Find (page_table s) p")
  case (Some f)
  then show ?thesis using n inv by (simp add: FetchPgImp_def)
next
  case None
  show ?thesis
  proof (cases res)
    case rn: None
    with n None obtain s1 where "acquire_frame s = Inr (None, s1)" "s' = s1"
      by (auto simp: FetchPgImp_def Let_def split: sum.splits option.splits)
    with acquire_frame_None[OF inv] inv show ?thesis by simp
  next
    case (Some a)
    with n None obtain f s1 rep where af: "acquire_frame s = Inr (Some f, s1)"
      and tf: "touch_frame (replacer s1) f = Inr rep"
      and s': "s' = s1\<lparr>page_table := (page_table s1)(p \<mapsto> f), replacer := rep,
                      pages := (pages s1)(f := (pages s1 f)\<lparr>data := fst (ReadPage (disk_manager s1) p),
                                                           pin_count := pin_count (pages s1 f) + 1,
                                                           page_id := p\<rparr>),
                      disk_manager := snd (ReadPage (disk_manager s1) p)\<rparr>"
      by (auto simp: FetchPgImp_def Let_def HashTable_Insert_def split: sum.splits option.splits)
    show ?thesis unfolding s'
      by (rule pool_inv_install[OF acquire_frame_Some[OF inv af] tf]) simp_all
  qed
qed

lemma FlushPgImp_inv:
  assumes inv: "pool_inv s" and n: "FlushPgImp s p = (ok, s')"
  shows "pool_inv s'"
proof (cases "HashTable_Find (page_table s) p")
  case None
  then show ?thesis using n inv by (simp add: FlushPgImp_def)
next
  case (Some f)
  with n have "s' = s\<lparr>disk_manager := WritePage (disk_manager s) p (data (pages s f)),
                   pages := (pages s)(f := (pages s f)\<lparr>is_dirty := False\<rparr>)\<rparr>"
    by (simp add: FlushPgImp_def)
  then show ?thesis
    by (intro pool_inv_cong[OF inv]) (simp_all add: pool_invD(5)[OF inv])
qed

lemma UnpinPgImp_inv:
  assumes inv: "pool_inv s" and n: "UnpinPgImp s p dirty = Inr (ok, s')"
  shows "pool_inv s'"
proof (cases "HashTable_Find (page_table s) p")
  case None
  then show ?thesis using n inv by (simp add: UnpinPgImp_def)
next
  case (Some f)
  then have m: "page_table s p = Some f" by (simp add: HashTable_Find_def)
  note i = pool_invD[OF inv]
  note mf = i(8)[OF m]
  show ?thesis
  proof (cases "pin_count (pages s f) \<le> 0")
    case True
    then show ?thesis using n Some inv by (simp add: UnpinPgImp_def)
  next
    case False
    let ?r = "replacer s"
    have known: "frameEvictable ?r f \<noteq> None" using mf i(3) by auto
    have nev: "frameEvictable ?r f \<noteq> Some True" using mf False by auto
    then have evf: "frameEvictable ?r f = Some False" using known by (cases "frameEvictable ?r f") auto
    obtain rep where rep: "replacer s' = rep" "frameRecords rep = frameRecords ?r"
      "replacer_size rep = replacer_size ?r"
      "frameEvictable rep = (if pin_count (pages s f) = 1 then (frameEvictable ?r)(f \<mapsto> True) else frameEvictable ?r)"
      and s': "pool_size s' = pool_size s" "free_list s' = free_list s" "page_table s' = page_table s"
      "\<And>g. pin_count (pages s' g) = (if g = f then pin_count (pages s f) - 1 else pin_count (pages s g))"
      "\<And>g. page_id (pages s' g) = page_id (pages s g)"
      using n Some False evf
      by (auto simp: UnpinPgImp_def Let_def SetEvictable_def split: if_splits)
    have tr: "tracked rep = tracked ?r" using rep(2) by (simp add: tracked_def)
    show ?thesis
    proof (rule pool_invI)
      show "replacer_size (replacer s') = pool_size s'" using rep s' i(1) by simp
      show "distinct (map fst (frameRecords (replacer s')))" using rep i(2) by simp
      show "tracked (replacer s') = dom (frameEvictable (replacer s'))"
        using rep tr i(3) mf by auto
      show "\<And>g. g \<in> tracked (replacer s') \<Longrightarrow> 0 \<le> g \<and> g < int (pool_size s')"
        using rep(1) tr s'(1) i(4) by simp
      show "distinct (free_list s')" using s' i(5) by simp
      show "\<And>g. g \<in> set (free_list s') \<Longrightarrow> 0 \<le> g \<and> g < int (pool_size s') \<and> g \<notin> tracked (replacer s')"
        using rep(1) tr s' i(6) by simp
      show "\<And>g. 0 \<le> pin_count (pages s' g)" using s'(4) i(7) False by simp
    next
      fix q g assume a: "page_table s' q = Some g"
      then have mq: "page_table s q = Some g" using s'(3) by simp
      show "g \<in> tracked (replacer s') \<and> page_id (pages s' g) = q \<and>
            (pin_count (pages s' g) = 0 \<longleftrightarrow> frameEvictable (replacer s') g = Some True)"
        using i(8)[OF mq] rep(1,4) tr s'(4,5) evf False by auto
    qed
  qed
qed

lemma DeletePgImp_inv:
  assumes inv: "pool_inv s" and n: "DeletePgImp s p = Inr (ok, s')"
  shows "pool_inv s'"
proof (cases "HashTable_Find (page_table s) p")
  case None
  then show ?thesis using n inv by (simp add: DeletePgImp_def)
next
  case (Some f)
  then have m: "page_table s p = Some f" by (simp add: HashTable_Find_def)
  note i = pool_invD[OF inv]
  note mf = i(8)[OF m]
  show ?thesis
  proof (cases "pin_count (pages s f) > 0")
    case True
    then show ?thesis using n Some inv by (simp add: DeletePgImp_def)
  next
    case False
    let ?r = "replacer s"
    have p0: "pin_count (pages s f) = 0" using False i(7)[of f] by simp
    then have evf: "frameEvictable ?r f = Some True" using mf by simp
    let ?rep = "?r\<lparr>frameRecords := filter (\<lambda>it. fst it \<noteq> f) (frameRecords ?r),
                   frameEvictable := (frameEvictable ?r)(f := None),
                   evictableNum := evictableNum ?r - 1\<rparr>"
    have s': "replacer s' = ?rep" "pool_size s' = pool_size s" "free_list s' = free_list s @ [f]"
      "page_table s' = (page_table s)(p := None)"
      "\<And>g. pin_count (pages s' g) = pin_count (pages s g)"
      "\<And>g. page_id (pages s' g) = page_id (pages s g)"
      using n Some False evf m
      by (auto simp: DeletePgImp_def Let_def HashTable_Remove_def Remove_def ResetMemory_def
          DeallocatePage_def)
    have tr: "tracked ?rep = tracked ?r - {f}" by (auto simp: tracked_def)
    have ff: "f \<notin> set (free_list s)" using i(6)[of f] mf by auto
    show ?thesis
    proof (rule pool_invI)
      show "replacer_size (replacer s') = pool_size s'" using s' i(1) by simp
      show "distinct (map fst (frameRecords (replacer s')))" using s' i(2) by (simp add: distinct_map_filter)
      show "tracked (replacer s') = dom (frameEvictable (replacer s'))"
        using s'(1) tr i(3) by auto
      show "\<And>g. g \<in> tracked (replacer s') \<Longrightarrow> 0 \<le> g \<and> g < int (pool_size s')"
        using s'(1,2) tr i(4) by simp
      show "distinct (free_list s')" using s' i(5) ff by simp
      show "\<And>g. g \<in> set (free_list s') \<Longrightarrow> 0 \<le> g \<and> g < int (pool_size s') \<and> g \<notin> tracked (replacer s')"
        using s'(1,2,3) tr i(6) i(4)[of f] mf by auto
      show "\<And>g. 0 \<le> pin_count (pages s' g)" using s'(5) i(7) by simp
    next
      fix q g assume a: "page_table s' q = Some g"
      then have q: "q \<noteq> p" "page_table s q = Some g" using s'(4) by (auto split: if_splits)
      from i(8)[OF q(2)] mf q(1) have gf: "g \<noteq> f" by auto
      show "g \<in> tracked (replacer s') \<and> page_id (pages s' g) = q \<and>
            (pin_count (pages s' g) = 0 \<longleftrightarrow> frameEvictable (replacer s') g = Some True)"
        using i(8)[OF q(2)] gf s'(1,5,6) tr by simp
    qed
  qed
qed

lemma reachable_pool_inv: "reachable s \<Longrightarrow> pool_inv s"
proof (induction rule: reachable.induct)
  case (init n dm replacer_k maxTs)
  show ?case by (rule pool_inv_init)
qed (auto intro: NewPgImp_inv FetchPgImp_inv UnpinPgImp_inv FlushPgImp_inv DeletePgImp_inv)

lemma reachable_pool2: "reachable pool2"
proof -
  have "reachable pool0" unfolding pool0_def by (rule reachable.init)
  then have "reachable pool1" by (rule reachable.new_page[OF _ pool1_reached])
  then show ?thesis by (rule reachable.unpin_page[OF _ pool2_reached])
qed

lemma reachable_pool1: "reachable pool1"
proof -
  have "reachable pool0" unfolding pool0_def by (rule reachable.init)
  then show ?thesis by (rule reachable.new_page[OF _ pool1_reached])
qed

lemma reachable_pool4: "reachable pool4"
  by (rule reachable.new_page[OF reachable.delete_page[OF reachable_pool2 pool3_reached] pool4_reached])

lemma pool_inv_pool2_written: "pool_inv pool2_written"
  by (rule pool_inv_cong[OF reachable_pool_inv[OF reachable_pool2]])
     (simp_all add: pool2_written_def pool2_def)

subsection \<open>A replacer without an evictable frame\<close>



subsection \<open>C10: a failed NewPgImp still consumes a page id\<close>



subsection \<open>C7 and C9: DeletePgImp\<close>

lemma DeletePgImp_unmapped:
  "HashTable_Find (page_table s) p = None \<Longrightarrow> DeletePgImp s p = Inr (True, s)"
  by (simp add: DeletePgImp_def)

lemma DeletePgImp_pinned:
  "HashTable_Find (page_table s) p = Some f \<Longrightarrow> pin_count (pages s f) > 0 \<Longrightarrow>
   DeletePgImp s p = Inr (False, s)"
  by (simp add: DeletePgImp_def)

lemma DeletePgImp_evictable:
  assumes "HashTable_Find (page_table s) p = Some f"
    and "pin_count (pages s f) \<le> 0"
    and "frameEvictable (replacer s) f = Some True"
  shows "DeletePgImp s p =
     Inr (True,
          s\<lparr>page_table := (page_table s)(p := None),
            replacer := (replacer s)\<lparr>frameRecords := filter (\<lambda>it. fst it \<noteq> f) (frameRecords (replacer s)),
                                    frameEvictable := (frameEvictable (replacer s))(f := None),
                                    evictableNum := evictableNum (replacer s) - 1\<rparr>,
            free_list := free_list s @ [f],
            pages := (pages s)(f := (pages s f)\<lparr>data := replicate BUSTUB_PAGE_SIZE 0\<rparr>),
            disk_manager := (disk_manager s)\<lparr>disk_calls := disk_calls (disk_manager s) @ [DeallocatePageCall p]\<rparr>\<rparr>)"
  using assms
  by (simp add: DeletePgImp_def HashTable_Find_def HashTable_Remove_def Remove_def
      ResetMemory_def DeallocatePage_def Let_def)

lemma unpinned_evictable:
  assumes "pool_inv s" "HashTable_Find (page_table s) p = Some f" "pin_count (pages s f) \<le> 0"
  shows "frameEvictable (replacer s) f = Some True"
proof -
  have "page_table s p = Some f" using assms(2) by (simp add: HashTable_Find_def)
  from pool_invD(8)[OF assms(1) this] pool_invD(7)[OF assms(1), of f] assms(3)
  show ?thesis by simp
qed

lemma DeletePgImp_unpinned:
  assumes "pool_inv s" "HashTable_Find (page_table s) p = Some f" "pin_count (pages s f) \<le> 0"
  shows "DeletePgImp s p =
     Inr (True,
          s\<lparr>page_table := (page_table s)(p := None),
            replacer := (replacer s)\<lparr>frameRecords := filter (\<lambda>it. fst it \<noteq> f) (frameRecords (replacer s)),
                                    frameEvictable := (frameEvictable (replacer s))(f := None),
                                    evictableNum := evictableNum (replacer s) - 1\<rparr>,
            free_list := free_list s @ [f],
            pages := (pages s)(f := (pages s f)\<lparr>data := replicate BUSTUB_PAGE_SIZE 0\<rparr>),
            disk_manager := (disk_manager s)\<lparr>disk_calls := disk_calls (disk_manager s) @ [DeallocatePageCall p]\<rparr>\<rparr>)"
  by (rule DeletePgImp_evictable[OF assms(2,3) unpinned_evictable[OF assms]])

text \<open>
  C7. In every pool state (satisfying the pool's invariant, as every reachable state
  does) \<open>DeletePgImp\<close> returns true and changes nothing when the page is not mapped;
  returns false and changes nothing when the mapped frame is pinned; and otherwise
  erases the mapping, removes the frame from the replacer (its records and its flag),
  clears the frame's bytes, appends the frame to the free list, calls \<open>DeallocatePage\<close>
  and returns true.
\<close>

theorem DeletePgImp_cases:
  assumes "pool_inv s"
  shows
  "(HashTable_Find (page_table s) p = None \<longrightarrow> DeletePgImp s p = Inr (True, s)) \<and>
   (\<forall>f. HashTable_Find (page_table s) p = Some f \<and> pin_count (pages s f) > 0 \<longrightarrow>
        DeletePgImp s p = Inr (False, s)) \<and>
   (\<forall>f. HashTable_Find (page_table s) p = Some f \<and> pin_count (pages s f) \<le> 0 \<longrightarrow>
        DeletePgImp s p =
          Inr (True,
               s\<lparr>page_table := (page_table s)(p := None),
                 replacer := (replacer s)\<lparr>frameRecords := filter (\<lambda>it. fst it \<noteq> f) (frameRecords (replacer s)),
                                         frameEvictable := (frameEvictable (replacer s))(f := None),
                                         evictableNum := evictableNum (replacer s) - 1\<rparr>,
                 free_list := free_list s @ [f],
                 pages := (pages s)(f := (pages s f)\<lparr>data := replicate BUSTUB_PAGE_SIZE 0\<rparr>),
                 disk_manager := (disk_manager s)\<lparr>disk_calls := disk_calls (disk_manager s) @ [DeallocatePageCall p]\<rparr>\<rparr>))"
  using DeletePgImp_unmapped DeletePgImp_pinned DeletePgImp_unpinned[OF assms] by blast

theorem DeletePgImp_cases_witness:
  "pool_inv pool1 \<and> pool_inv pool2 \<and>
   HashTable_Find (page_table pool1) 7 = None \<and> DeletePgImp pool1 7 = Inr (True, pool1) \<and>
   HashTable_Find (page_table pool1) 0 = Some 0 \<and> pin_count (pages pool1 0) > 0 \<and>
   DeletePgImp pool1 0 = Inr (False, pool1) \<and>
   HashTable_Find (page_table pool2) 0 = Some 0 \<and> pin_count (pages pool2 0) \<le> 0 \<and>
   DeletePgImp pool2 0 = Inr (True, pool3)"
proof -
  have i1: "pool_inv pool1" by (rule reachable_pool_inv[OF reachable_pool1])
  have i2: "pool_inv pool2" by (rule reachable_pool_inv[OF reachable_pool2])
  have a: "HashTable_Find (page_table pool1) 7 = None"
    and b: "HashTable_Find (page_table pool1) 0 = Some 0 \<and> pin_count (pages pool1 0) > 0"
    and c: "HashTable_Find (page_table pool2) 0 = Some 0 \<and> pin_count (pages pool2 0) \<le> 0"
    by (simp_all add: pool1_def pool2_def HashTable_Find_def)
  have d: "DeletePgImp pool1 7 = Inr (True, pool1)"
    using DeletePgImp_cases[OF i1, of 7] a by simp
  have e: "DeletePgImp pool1 0 = Inr (False, pool1)"
    using DeletePgImp_cases[OF i1, of 0] b by blast
  have "DeletePgImp pool2 0 = Inr (True,
               pool2\<lparr>page_table := (page_table pool2)(0 := None),
                 replacer := (replacer pool2)\<lparr>frameRecords := filter (\<lambda>it. fst it \<noteq> 0) (frameRecords (replacer pool2)),
                                         frameEvictable := (frameEvictable (replacer pool2))(0 := None),
                                         evictableNum := evictableNum (replacer pool2) - 1\<rparr>,
                 free_list := free_list pool2 @ [0],
                 pages := (pages pool2)(0 := (pages pool2 0)\<lparr>data := replicate BUSTUB_PAGE_SIZE 0\<rparr>),
                 disk_manager := (disk_manager pool2)\<lparr>disk_calls := disk_calls (disk_manager pool2) @ [DeallocatePageCall 0]\<rparr>\<rparr>)"
    using DeletePgImp_cases[OF i2, of 0] c by blast
  then have f: "DeletePgImp pool2 0 = Inr (True, pool3)"
    by (simp add: pool2_def pool3_def disk0_def)
  show ?thesis using i1 i2 a b c d e f by simp
qed

text \<open>
  C9. In every pool state (satisfying the pool's invariant) \<open>DeletePgImp\<close> on a mapped,
  unpinned page whose dirty flag is set makes no call of \<open>WritePage\<close>: the only call the
  disk manager receives is \<open>DeallocatePage\<close>, the bytes the disk holds for every page
  are what they were, and the frame's bytes are cleared, so what the frame held and
  the disk did not is gone.
\<close>

theorem DeletePgImp_dirty_discards:
  assumes "pool_inv s"
    and "HashTable_Find (page_table s) p = Some f"
    and "pin_count (pages s f) \<le> 0"
    and "is_dirty (pages s f)"
  shows "\<exists>s'. DeletePgImp s p = Inr (True, s') \<and>
           disk_calls (disk_manager s') = disk_calls (disk_manager s) @ [DeallocatePageCall p] \<and>
           disk_pages (disk_manager s') = disk_pages (disk_manager s) \<and>
           data (pages s' f) = replicate BUSTUB_PAGE_SIZE 0 \<and>
           HashTable_Find (page_table s') p = None"
  using DeletePgImp_unpinned[OF assms(1-3)] by (simp add: HashTable_Find_def)

theorem DeletePgImp_dirty_discards_witness:
  "pool_inv pool2_written \<and>
   HashTable_Find (page_table pool2_written) 0 = Some 0 \<and>
   pin_count (pages pool2_written 0) \<le> 0 \<and>
   is_dirty (pages pool2_written 0) \<and>
   data (pages pool2_written 0) = [1, 2, 3] \<and>
   (\<exists>s'. DeletePgImp pool2_written 0 = Inr (True, s') \<and>
         disk_calls (disk_manager s') = [DeallocatePageCall 0] \<and>
         disk_pages (disk_manager s') 0 = replicate BUSTUB_PAGE_SIZE 0 \<and>
         data (pages s' 0) = replicate BUSTUB_PAGE_SIZE 0)"
proof -
  have h: "HashTable_Find (page_table pool2_written) 0 = Some 0"
    "pin_count (pages pool2_written 0) \<le> 0"
    "is_dirty (pages pool2_written 0)"
    by (simp_all add: pool2_written_def pool2_def HashTable_Find_def)
  have d: "data (pages pool2_written 0) = [1, 2, 3]"
    "disk_calls (disk_manager pool2_written) = []"
    "disk_pages (disk_manager pool2_written) 0 = replicate BUSTUB_PAGE_SIZE 0"
    by (simp_all add: pool2_written_def pool2_def disk0_def)
  from DeletePgImp_dirty_discards[OF pool_inv_pool2_written h] obtain s' where
    "DeletePgImp pool2_written 0 = Inr (True, s')"
    "disk_calls (disk_manager s') = disk_calls (disk_manager pool2_written) @ [DeallocatePageCall 0]"
    "disk_pages (disk_manager s') = disk_pages (disk_manager pool2_written)"
    "data (pages s' 0) = replicate BUSTUB_PAGE_SIZE 0"
    by blast
  with h d pool_inv_pool2_written show ?thesis by simp
qed

subsection \<open>C1: FetchPgImp on a mapped page\<close>

lemma FetchPgImp_mapped:
  "HashTable_Find (page_table s) p = Some f \<Longrightarrow> FetchPgImp s p = Inr (Some f, s)"
  by (simp add: FetchPgImp_def)

text \<open>
  C1 (the code departs from it). The pool reaches \<open>pool2\<close> by \<open>NewPage\<close> and
  \<open>UnpinPage(0, true)\<close>: page 0 is mapped to frame 0, unpinned and evictable, with one
  recorded access. \<open>FetchPgImp\<close> returns frame 0 and leaves the pool
  as it was: the pin count is still 0, no access is recorded, the frame is still
  evictable.
\<close>

theorem FetchPgImp_mapped_returns_unpinned:
  "reachable pool2 \<and>
   HashTable_Find (page_table pool2) 0 = Some 0 \<and>
   FetchPgImp pool2 0 = Inr (Some 0, pool2) \<and>
   pin_count (pages pool2 0) = 0 \<and>
   frameEvictable (replacer pool2) 0 = Some True \<and>
   frameRecords (replacer pool2) = [(0, [1])]"
  using reachable_pool2 by (simp add: pool2_def pool_defs)

subsection \<open>C2: UnpinPgImp and the dirty flag\<close>

lemma UnpinPgImp_dirty:
  "UnpinPgImp s p dirty = Inr (True, s') \<Longrightarrow> HashTable_Find (page_table s) p = Some f \<Longrightarrow>
   is_dirty (pages s' f) = dirty"
  by (auto simp: UnpinPgImp_def Let_def split: option.splits if_splits sum.splits)

text \<open>
  C2 (the code departs from it). The pool reaches \<open>pool4\<close> by \<open>NewPage\<close>,
  \<open>UnpinPage(0, true)\<close>, \<open>DeletePage(0)\<close>, \<open>NewPage\<close>: page 1 is mapped to frame 0 with pin
  count 1 and the dirty flag set. \<open>UnpinPgImp(1, false)\<close> succeeds and leaves the flag cleared:
  the flag is assigned \<open>is_dirty\<close>, not or-ed with it.
\<close>

theorem UnpinPgImp_overwrites_dirty:
  "reachable pool4 \<and>
   HashTable_Find (page_table pool4) 1 = Some 0 \<and>
   pin_count (pages pool4 0) = 1 \<and>
   is_dirty (pages pool4 0) \<and>
   (\<exists>s'. UnpinPgImp pool4 1 False = Inr (True, s') \<and> \<not> is_dirty (pages s' 0))"
  using reachable_pool4 by (simp add: pool4_def pool_defs)

section \<open>Theorems: the B+-tree\<close>

lemmas page_defs = IsLeafPage_def IsRootPage_def GetSize_def SetSize_def IncreaseSize_def GetMaxSize_def
  GetMinSize_def GetParentPageId_def SetParentPageId_def GetPageId_def GetNextPageId_def SetNextPageId_def
  std_copy_def std_move_def std_move_backward_def Leaf_Init_def KeyAt_def FindPos_def Leaf_LookUp_def
  Leaf_Insert_def Leaf_CopyLastFrom_def Leaf_CopyFirstFrom_def Internal_Init_def SetKeyAt_def ValueAt_def
  SetValueAt_def LookUp_index_def Internal_LookUp_def Internal_Insert_def keyComparator_def
  INVALID_PAGE_ID_def

lemmas tree_defs = bpm_NewPage_def IsEmpty_def Leaf_CopyNFrom_def Leaf_MoveHalfTo_def
  Leaf_MoveFirstToEndOf_def Leaf_MoveLastToFrontOf_def reparent_def Internal_CopyNFrom_def
  Internal_MoveHalfTo_def Internal_CopyLastFrom_def Internal_CopyFirstFrom_def
  Internal_MoveFirstToEndOf_def Internal_MoveLastToFrontOf_def FindLeaf_def StartNewTree_def
  Split_def InsertIntoLeaf_def BPlusTree_Insert_def Redistribute_def

lemmas run_simps = FindLeaf_loop.simps InsertIntoParent.simps lower_bound.simps eval_nat_numeral

subsection \<open>The concrete trees are reached by inserting\<close>

lemma tree2_reached: "InsertFromFile tree0 [1, 2] = Some (Inr tree2)"
  by (simp add: tree0_def tree2_def tree_defs page_defs zero_node_def Let_def run_simps)

lemma tree3_reached: "InsertFromFile tree2 [3] = Some (Inr tree3)"
  apply (simp add: tree3_def tree2_def tree_defs page_defs zero_node_def Let_def run_simps root3_def)
  apply (auto simp: fun_eq_iff)
  done

subsection \<open>C3: Redistribute on leaves\<close>

text \<open>
  C3 (the code departs from it). Leaf minimum size is 2. In \<open>tree_right\<close> the node in page
  1 holds the key 1 and its right sibling in page 2 holds 5, 6, 7. \<open>Redistribute\<close> leaves
  the node with 1, 6 and the sibling with 6, 7: the adjacent entry 5 is gone and 6 is in
  both leaves. In \<open>tree_left\<close> the node in page 2 holds 7 and its left sibling in page 1
  holds 1, 2, 3. \<open>Redistribute\<close> leaves the sibling with 1, 2 and the node with 2, 7:
  the adjacent entry 3 is gone and 2 is in both leaves.
\<close>

theorem Redistribute_leaf_loses_adjacent_entry:
  "entries (tree_pages tree_right 1) = [(1, 10)] \<and>
   entries (tree_pages tree_right 2) = [(5, 50), (6, 60), (7, 70)] \<and>
   GetMinSize (tree_pages tree_right 2) = 2 \<and>
   entries (tree_pages (Redistribute tree_right (PagePtr 2) (PagePtr 1) (PagePtr 3) 0 False) 1) = [(1, 10), (6, 60)] \<and>
   entries (tree_pages (Redistribute tree_right (PagePtr 2) (PagePtr 1) (PagePtr 3) 0 False) 2) = [(6, 60), (7, 70)] \<and>
   entries (tree_pages (Redistribute tree_right (PagePtr 2) (PagePtr 1) (PagePtr 3) 0 False) 3) = [(0, 1), (6, 2)] \<and>
   entries (tree_pages tree_left 1) = [(1, 10), (2, 20), (3, 30)] \<and>
   entries (tree_pages tree_left 2) = [(7, 70)] \<and>
   GetMinSize (tree_pages tree_left 1) = 2 \<and>
   entries (tree_pages (Redistribute tree_left (PagePtr 1) (PagePtr 2) (PagePtr 3) 1 True) 1) = [(1, 10), (2, 20)] \<and>
   entries (tree_pages (Redistribute tree_left (PagePtr 1) (PagePtr 2) (PagePtr 3) 1 True) 2) = [(2, 20), (7, 70)] \<and>
   entries (tree_pages (Redistribute tree_left (PagePtr 1) (PagePtr 2) (PagePtr 3) 1 True) 3) = [(0, 1), (2, 2)]"
  by (simp add: tree_right_def tree_left_def tree_defs page_defs zero_node_def entries_def Let_def run_simps)

subsection \<open>C5: the new root and the header page\<close>

text \<open>What the root branch of \<open>InsertIntoParent\<close> does, for any tree whose two halves
  live in pages other than the one \<open>NewPage\<close> hands out.\<close>

lemma InsertIntoParent_new_root:
  assumes "IsRootPage (tree_pages t l)" "l \<noteq> bpm_next_page_id t" "r \<noteq> bpm_next_page_id t"
  shows "\<exists>t'. InsertIntoParent t (PagePtr l) (PagePtr r) key = Some t' \<and>
           root_page_id t' = bpm_next_page_id t \<and>
           page_type (tree_pages t' (root_page_id t')) = INTERNAL_PAGE \<and>
           GetSize (tree_pages t' (root_page_id t')) = 2 \<and>
           ValueAt (tree_pages t' (root_page_id t')) 0 = GetPageId (tree_pages t l) \<and>
           KeyAt (tree_pages t' (root_page_id t')) 1 = key \<and>
           ValueAt (tree_pages t' (root_page_id t')) 1 = GetPageId (tree_pages t r) \<and>
           GetParentPageId (tree_pages t' l) = root_page_id t' \<and>
           GetParentPageId (tree_pages t' r) = root_page_id t' \<and>
           header_page t' = header_page t"
  using assms by (simp add: InsertIntoParent.simps bpm_NewPage_def page_defs Let_def)

text \<open>
  C5 (the code departs from it). Inserting the key 3 into \<open>tree2\<close> splits the root leaf.
  \<open>InsertIntoParent\<close> builds the new root in page 3 with the children 1 and 2, the
  separator 2 in slot 1 and size 2, makes both halves point to it and sets the root id
  to 3. It does not call \<open>UpdateRootPageId\<close>: the header page is what it was, whether
  it was empty or held a record for the index.
\<close>

theorem InsertIntoParent_new_root_header_unwritten:
  "(\<exists>t. BPlusTree_Insert tree2 3 3 = Some (Inr (True, t)) \<and>
        root_page_id t = 3 \<and>
        page_type (tree_pages t 3) = INTERNAL_PAGE \<and>
        entries (tree_pages t 3) = [(0, 1), (2, 2)] \<and>
        parent_page_id (tree_pages t 1) = 3 \<and> parent_page_id (tree_pages t 2) = 3 \<and>
        entries (tree_pages t 1) = [(1, 1)] \<and> entries (tree_pages t 2) = [(2, 2), (3, 3)] \<and>
        header_page t = []) \<and>
   (\<exists>t. BPlusTree_Insert (tree2\<lparr>header_page := [(''idx'', 1)]\<rparr>) 3 3 = Some (Inr (True, t)) \<and>
        root_page_id t = 3 \<and> header_page t = [(''idx'', 1)])"
  by (simp add: tree2_def tree_defs page_defs zero_node_def entries_def Let_def run_simps)

subsection \<open>C8: LookUp of an internal page\<close>

text \<open>If the key in slot 0 is at most the search key, \<open>FindPos\<close> does not return 0 on
  the not-found branch and \<open>LookUp\<close> reads a slot of the page.\<close>

lemma lower_bound_bounds:
  "0 \<le> len \<Longrightarrow> first \<le> lower_bound a first len k \<and> lower_bound a first len k \<le> first + len"
proof (induction a first len k rule: lower_bound.induct)
  case (1 a first len k)
  show ?case
  proof (cases "0 < len")
    case False
    then have "lower_bound a first len k = first" by (subst lower_bound.simps) simp
    then show ?thesis using "1.prems" by simp
  next
    case True
    let ?half = "len div 2"
    show ?thesis
    proof (cases "keyComparator (fst (a (first + ?half))) k < 0")
      case c: True
      have "first + ?half + 1 \<le> lower_bound a (first + ?half + 1) (len - ?half - 1) k \<and>
            lower_bound a (first + ?half + 1) (len - ?half - 1) k \<le> first + ?half + 1 + (len - ?half - 1)"
        using "1.IH"(1)[OF True refl refl c] True by simp
      moreover have "lower_bound a first len k = lower_bound a (first + ?half + 1) (len - ?half - 1) k"
        using True c by (subst lower_bound.simps) (simp add: Let_def)
      moreover have "0 \<le> ?half" using True by simp
      ultimately show ?thesis by linarith
    next
      case c: False
      have "first \<le> lower_bound a first ?half k \<and> lower_bound a first ?half k \<le> first + ?half"
        using "1.IH"(2)[OF True refl refl c] True by simp
      moreover have "lower_bound a first len k = lower_bound a first ?half k"
        using True c by (subst lower_bound.simps) (simp add: Let_def)
      moreover have "?half \<le> len" using True by simp
      ultimately show ?thesis by linarith
    qed
  qed
qed

lemma lower_bound_first:
  "0 < len \<Longrightarrow> lower_bound a first len k = first \<Longrightarrow> \<not> keyComparator (fst (a first)) k < 0"
proof (induction a first len k rule: lower_bound.induct)
  case (1 a first len k)
  let ?half = "len div 2"
  show ?case
  proof (cases "keyComparator (fst (a (first + ?half))) k < 0")
    case c: True
    have "first + ?half + 1 \<le> lower_bound a (first + ?half + 1) (len - ?half - 1) k"
      using lower_bound_bounds[of "len - ?half - 1" "first + ?half + 1" a k] "1.prems"(1) by simp
    moreover have "lower_bound a first len k = lower_bound a (first + ?half + 1) (len - ?half - 1) k"
      using "1.prems"(1) c by (subst lower_bound.simps) (simp add: Let_def)
    moreover have "0 \<le> ?half" using "1.prems"(1) by simp
    ultimately show ?thesis using "1.prems" by linarith
  next
    case c: False
    have eq: "lower_bound a first len k = lower_bound a first ?half k"
      using "1.prems"(1) c by (subst lower_bound.simps) (simp add: Let_def)
    show ?thesis
    proof (cases "0 < ?half")
      case True
      from "1.IH"(2)[OF "1.prems"(1) refl refl c True] eq "1.prems"(2) show ?thesis by simp
    next
      case False
      with "1.prems"(1) have "?half = 0" by simp
      with c show ?thesis by simp
    qed
  qed
qed

lemma Internal_LookUp_in_range:
  assumes "1 \<le> GetSize n" "keyComparator (fst (array n 0)) k \<le> 0"
  shows "0 \<le> LookUp_index n k \<and> LookUp_index n k < GetSize n \<and>
         Internal_LookUp n k = Inr (ValueAt n (LookUp_index n k))"
proof -
  let ?pos = "FindPos n k"
  have b: "0 \<le> ?pos \<and> ?pos \<le> GetSize n"
    using lower_bound_bounds[of "GetSize n" 0 "array n" k] assms(1) by (simp add: FindPos_def)
  have z: "?pos = 0 \<Longrightarrow> keyComparator (fst (array n 0)) k = 0"
    using lower_bound_first[of "GetSize n" "array n" 0 k] assms by (simp add: FindPos_def)
  have "0 \<le> LookUp_index n k \<and> LookUp_index n k < GetSize n"
  proof (cases "?pos = 0")
    case True
    then show ?thesis using z assms(1) by (simp add: LookUp_index_def Let_def)
  next
    case False
    then show ?thesis using b by (auto simp: LookUp_index_def Let_def)
  qed
  then show ?thesis by (simp add: Internal_LookUp_def)
qed

text \<open>
  C8 (the code departs from it). \<open>root3\<close> is the root that \<open>InsertIntoParent\<close> builds in
  \<open>tree3\<close>: size 2, the key of slot 0 is the 0 of the zeroed page. For the search key
  \<open>-1\<close> \<open>FindPos\<close> returns 0, the key of slot 0 differs from \<open>-1\<close>, and \<open>LookUp\<close> reads
  \<open>ValueAt(-1)\<close>. Inserting 1, 2, 3 and then \<open>-1\<close> into the empty tree runs into that read.
\<close>

theorem Internal_LookUp_reads_slot_before_array:
  "page_type root3 = INTERNAL_PAGE \<and> GetSize root3 = 2 \<and> entries root3 = [(0, 1), (2, 2)] \<and>
   tree_pages tree3 (root_page_id tree3) = root3 \<and>
   FindPos root3 (-1) = 0 \<and> LookUp_index root3 (-1) = -1 \<and>
   Internal_LookUp root3 (-1) = Inl UndefinedBehaviour \<and>
   InsertFromFile tree0 [1, 2, 3, -1] = Some (Inl UndefinedBehaviour)"
  by (simp add: tree0_def tree3_def root3_def tree_defs page_defs zero_node_def entries_def Let_def run_simps)

subsection \<open>C6: inserting a key that is present\<close>

lemma length_entries: "length (entries n) = nat (cur_size n)"
  by (simp add: entries_def)

lemma nth_entries: "i < nat (cur_size n) \<Longrightarrow> entries n ! i = array n (int i)"
  by (simp add: entries_def)

lemma keys_strict:
  assumes "sorted_wrt (<) (map fst (entries n))" "0 \<le> i" "i < j" "j < cur_size n"
  shows "fst (array n i) < fst (array n j)"
proof -
  have "nat i < nat j" "nat j < length (map fst (entries n))"
    using assms(2-4) by (simp_all add: length_entries)
  from sorted_wrt_nth_less[OF assms(1) this]
  show ?thesis using assms(2-4) by (simp add: nth_entries length_entries)
qed

lemma keys_mono:
  assumes "sorted_wrt (<) (map fst (entries n))" "0 \<le> i" "i \<le> j" "j < cur_size n"
  shows "fst (array n i) \<le> fst (array n j)"
  using keys_strict[OF assms(1,2) _ assms(4), of ] assms(3) by (cases "i = j") auto

lemma key_in_entries:
  assumes "k \<in> set (map fst (entries n))"
  shows "\<exists>j. 0 \<le> j \<and> j < cur_size n \<and> fst (array n j) = k"
proof -
  from assms obtain i where "i < nat (cur_size n)" "fst (entries n ! i) = k"
    by (auto simp: in_set_conv_nth length_entries)
  then have "0 \<le> int i \<and> int i < cur_size n \<and> fst (array n (int i)) = k"
    by (simp add: nth_entries)
  then show ?thesis by blast
qed

lemma lower_bound_spec:
  assumes "0 \<le> len"
    and "\<And>i j. first \<le> i \<Longrightarrow> i \<le> j \<Longrightarrow> j < first + len \<Longrightarrow> fst (a i) \<le> fst (a j)"
  shows "(\<forall>i. first \<le> i \<and> i < lower_bound a first len k \<longrightarrow> fst (a i) < k) \<and>
         (\<forall>i. lower_bound a first len k \<le> i \<and> i < first + len \<longrightarrow> k \<le> fst (a i))"
  using assms
proof (induction a first len k rule: lower_bound.induct)
  case (1 a first len k)
  show ?case
  proof (cases "0 < len")
    case False
    then have "lower_bound a first len k = first" by (subst lower_bound.simps) simp
    then show ?thesis using False by simp
  next
    case True
    let ?half = "len div 2"
    let ?mid = "first + ?half"
    have h: "0 \<le> ?half" "?half < len" using True by simp_all
    show ?thesis
    proof (cases "keyComparator (fst (a ?mid)) k < 0")
      case c: True
      then have lt: "fst (a ?mid) < k" by (simp add: keyComparator_def split: if_splits)
      have eq: "lower_bound a first len k = lower_bound a (?mid + 1) (len - ?half - 1) k"
        using True c by (subst lower_bound.simps) (simp add: Let_def)
      have srt: "\<And>i j. ?mid + 1 \<le> i \<Longrightarrow> i \<le> j \<Longrightarrow> j < ?mid + 1 + (len - ?half - 1) \<Longrightarrow> fst (a i) \<le> fst (a j)"
        using "1.prems"(2) h by simp
      have ih: "(\<forall>i. ?mid + 1 \<le> i \<and> i < lower_bound a (?mid + 1) (len - ?half - 1) k \<longrightarrow> fst (a i) < k) \<and>
         (\<forall>i. lower_bound a (?mid + 1) (len - ?half - 1) k \<le> i \<and> i < ?mid + 1 + (len - ?half - 1) \<longrightarrow> k \<le> fst (a i))"
        using "1.IH"(1)[OF True refl refl c _ srt] h by simp
      have low: "fst (a i) < k" if "first \<le> i" "i \<le> ?mid" for i
        using "1.prems"(2)[OF that(1,2)] h lt by simp
      show ?thesis
        unfolding eq
      proof (intro conjI allI impI)
        fix i assume "first \<le> i \<and> i < lower_bound a (?mid + 1) (len - ?half - 1) k"
        then show "fst (a i) < k" using ih low[of i] by (cases "i \<le> ?mid") auto
      next
        fix i assume "lower_bound a (?mid + 1) (len - ?half - 1) k \<le> i \<and> i < first + len"
        then show "k \<le> fst (a i)" using ih by simp
      qed
    next
      case c: False
      then have ge: "k \<le> fst (a ?mid)" by (simp add: keyComparator_def split: if_splits)
      have eq: "lower_bound a first len k = lower_bound a first ?half k"
        using True c by (subst lower_bound.simps) (simp add: Let_def)
      have srt: "\<And>i j. first \<le> i \<Longrightarrow> i \<le> j \<Longrightarrow> j < first + ?half \<Longrightarrow> fst (a i) \<le> fst (a j)"
        using "1.prems"(2) h by simp
      have ih: "(\<forall>i. first \<le> i \<and> i < lower_bound a first ?half k \<longrightarrow> fst (a i) < k) \<and>
         (\<forall>i. lower_bound a first ?half k \<le> i \<and> i < first + ?half \<longrightarrow> k \<le> fst (a i))"
        using "1.IH"(2)[OF True refl refl c h(1) srt] by simp
      have high: "k \<le> fst (a i)" if "?mid \<le> i" "i < first + len" for i
        using "1.prems"(2)[OF _ that(1,2)] h ge by simp
      show ?thesis
        unfolding eq
      proof (intro conjI allI impI)
        fix i assume "first \<le> i \<and> i < lower_bound a first ?half k"
        then show "fst (a i) < k" using ih by simp
      next
        fix i assume "lower_bound a first ?half k \<le> i \<and> i < first + len"
        then show "k \<le> fst (a i)" using ih high[of i] by (cases "i < ?mid") auto
      qed
    qed
  qed
qed

lemma FindPos_spec:
  assumes "sorted_wrt (<) (map fst (entries n))" "0 \<le> cur_size n"
  shows "0 \<le> FindPos n k" "FindPos n k \<le> cur_size n"
    and "\<And>i. 0 \<le> i \<Longrightarrow> i < FindPos n k \<Longrightarrow> fst (array n i) < k"
    and "\<And>i. FindPos n k \<le> i \<Longrightarrow> i < cur_size n \<Longrightarrow> k \<le> fst (array n i)"
proof -
  have b: "0 \<le> FindPos n k \<and> FindPos n k \<le> cur_size n"
    using lower_bound_bounds[of "cur_size n" 0 "array n" k] assms(2) by (simp add: FindPos_def GetSize_def)
  have s: "(\<forall>i. 0 \<le> i \<and> i < lower_bound (array n) 0 (cur_size n) k \<longrightarrow> fst (array n i) < k) \<and>
         (\<forall>i. lower_bound (array n) 0 (cur_size n) k \<le> i \<and> i < 0 + cur_size n \<longrightarrow> k \<le> fst (array n i))"
    by (rule lower_bound_spec[OF assms(2)]) (use keys_mono[OF assms(1)] in simp)
  show "0 \<le> FindPos n k" "FindPos n k \<le> cur_size n" using b by simp_all
  show "\<And>i. 0 \<le> i \<Longrightarrow> i < FindPos n k \<Longrightarrow> fst (array n i) < k"
    using s by (simp add: FindPos_def GetSize_def)
  show "\<And>i. FindPos n k \<le> i \<Longrightarrow> i < cur_size n \<Longrightarrow> k \<le> fst (array n i)"
    using s by (simp add: FindPos_def GetSize_def)
qed

lemma FindPos_present:
  assumes srt: "sorted_wrt (<) (map fst (entries n))"
    and j: "0 \<le> j" "j < cur_size n" "fst (array n j) = k"
  shows "FindPos n k = j"
proof -
  have sz: "0 \<le> cur_size n" using j by simp
  note sp = FindPos_spec[OF srt sz, where k = k]
  have "\<not> j < FindPos n k" using sp(3)[OF j(1)] j(3) by auto
  moreover have "\<not> FindPos n k < j"
  proof
    assume a: "FindPos n k < j"
    then have "k \<le> fst (array n (FindPos n k))" using sp(4)[of "FindPos n k"] j(2) by simp
    moreover have "fst (array n (FindPos n k)) < fst (array n j)"
      using keys_strict[OF srt sp(1) a j(2)] .
    ultimately show False using j(3) by simp
  qed
  ultimately show ?thesis by simp
qed

lemma FindPos_after:
  assumes srt: "sorted_wrt (<) (map fst (entries n))"
    and j: "0 \<le> j" "j < cur_size n" "fst (array n j) < k"
    and nxt: "j + 1 < cur_size n \<Longrightarrow> k < fst (array n (j + 1))"
  shows "FindPos n k = j + 1"
proof -
  have sz: "0 \<le> cur_size n" using j by simp
  note sp = FindPos_spec[OF srt sz, where k = k]
  have "\<not> FindPos n k \<le> j" using sp(4)[of j] j by auto
  moreover have "\<not> j + 1 < FindPos n k"
  proof
    assume a: "j + 1 < FindPos n k"
    then have "j + 1 < cur_size n" using sp(2) by simp
    moreover have "fst (array n (j + 1)) < k" using sp(3)[of "j + 1"] a j(1) by simp
    ultimately show False using nxt by simp
  qed
  ultimately show ?thesis by simp
qed

lemma Leaf_Insert_present:
  assumes "sorted_wrt (<) (map fst (entries n))" "k \<in> set (map fst (entries n))"
  shows "Leaf_Insert n k v = (n, GetSize n)"
proof -
  from key_in_entries[OF assms(2)] obtain j where j: "0 \<le> j" "j < cur_size n" "fst (array n j) = k"
    by blast
  have "FindPos n k = j" by (rule FindPos_present[OF assms(1) j])
  then show ?thesis using j by (simp add: Leaf_Insert_def GetSize_def keyComparator_def Let_def)
qed

lemma Internal_LookUp_child:
  assumes srt: "sorted_wrt (<) (map fst (entries n))"
    and j: "0 \<le> j" "j < cur_size n" "fst (array n j) \<le> k"
    and nxt: "j + 1 < cur_size n \<Longrightarrow> k < fst (array n (j + 1))"
  shows "Internal_LookUp n k = Inr (snd (array n j))"
proof (cases "fst (array n j) = k")
  case True
  have "FindPos n k = j" by (rule FindPos_present[OF srt j(1,2) True])
  then have "LookUp_index n k = j" using j True by (simp add: LookUp_index_def GetSize_def keyComparator_def Let_def)
  then show ?thesis using j by (simp add: Internal_LookUp_def ValueAt_def)
next
  case False
  then have lt: "fst (array n j) < k" using j(3) by simp
  have p: "FindPos n k = j + 1" by (rule FindPos_after[OF srt j(1,2) lt nxt])
  have "LookUp_index n k = j"
  proof (cases "j + 1 < cur_size n")
    case True
    with nxt have "fst (array n (j + 1)) \<noteq> k" by auto
    then show ?thesis using p by (simp add: LookUp_index_def GetSize_def keyComparator_def Let_def)
  next
    case False
    with j have "j + 1 = cur_size n" by simp
    then show ?thesis using p by (simp add: LookUp_index_def GetSize_def Let_def)
  qed
  then show ?thesis using j by (simp add: Internal_LookUp_def ValueAt_def)
qed

lemma below_trans: "k < b \<Longrightarrow> below hi b \<Longrightarrow> below hi k"
  by (cases hi) (auto simp: below_def)

lemma subtree_child:
  assumes "bplus_subtree pgs (Suc h) p lo hi" "i < nat (cur_size (pgs p))"
  shows "bplus_subtree pgs h (snd (array (pgs p) (int i)))
           (if i = 0 then lo else fst (array (pgs p) (int i)))
           (if int i + 1 < cur_size (pgs p) then Some (fst (array (pgs p) (int i + 1))) else hi)"
  using assms by (simp add: list_all_iff)

lemma subtree_sep_bounds:
  assumes "bplus_subtree pgs (Suc h) p lo hi" "1 \<le> i" "i < cur_size (pgs p)"
  shows "lo \<le> fst (array (pgs p) i) \<and> below hi (fst (array (pgs p) i))"
proof -
  let ?ks = "map fst (entries (pgs p))"
  have len: "length ?ks = nat (cur_size (pgs p))" by (simp add: length_entries)
  have "nat i - 1 < length (tl ?ks)" using assms(2,3) len by simp
  then have "tl ?ks ! (nat i - 1) \<in> set (tl ?ks)" by (rule nth_mem)
  moreover have "tl ?ks ! (nat i - 1) = ?ks ! nat i"
    using assms(2,3) len by (simp add: nth_tl)
  moreover have "?ks ! nat i = fst (array (pgs p) i)"
    using assms(2,3) by (simp add: nth_entries length_entries)
  ultimately have "fst (array (pgs p) i) \<in> set (tl ?ks)" by simp
  then show ?thesis using assms(1) by (simp add: list_all_iff)
qed

lemma subtree_keys_bounds:
  "bplus_subtree pgs h p lo hi \<Longrightarrow> k \<in> subtree_keys pgs h p \<Longrightarrow> lo \<le> k \<and> below hi k"
proof (induction h arbitrary: p lo hi)
  case 0
  then show ?case by (auto simp: list_all_iff)
next
  case (Suc h)
  let ?n = "pgs p"
  from Suc.prems(2) obtain i where i: "i < nat (cur_size ?n)"
      "k \<in> subtree_keys pgs h (snd (array ?n (int i)))" by auto
  from Suc.IH[OF subtree_child[OF Suc.prems(1) i(1)] i(2)]
  have b: "(if i = 0 then lo else fst (array ?n (int i))) \<le> k"
    "below (if int i + 1 < cur_size ?n then Some (fst (array ?n (int i + 1))) else hi) k"
    by simp_all
  have "lo \<le> k"
  proof (cases "i = 0")
    case True then show ?thesis using b(1) by simp
  next
    case False
    then have "lo \<le> fst (array ?n (int i))"
      using subtree_sep_bounds[OF Suc.prems(1), of "int i"] i(1) by simp
    then show ?thesis using b(1) False by simp
  qed
  moreover have "below hi k"
  proof (cases "int i + 1 < cur_size ?n")
    case True
    then have "k < fst (array ?n (int i + 1))" using b(2) by (simp add: below_def)
    moreover have "below hi (fst (array ?n (int i + 1)))"
      using subtree_sep_bounds[OF Suc.prems(1), of "int i + 1"] True by simp
    ultimately show ?thesis by (rule below_trans)
  next
    case False then show ?thesis using b(2) by simp
  qed
  ultimately show ?case by simp
qed

lemma FindLeaf_loop_reaches:
  "bplus_subtree pgs h p lo hi \<Longrightarrow> k \<in> subtree_keys pgs h p \<Longrightarrow>
   \<exists>l lo' hi'. FindLeaf_loop pgs k False False p = Some (Inr l) \<and>
               bplus_subtree pgs 0 l lo' hi' \<and> k \<in> subtree_keys pgs 0 l"
proof (induction h arbitrary: p lo hi)
  case 0
  then have "FindLeaf_loop pgs k False False p = Some (Inr p)"
    by (subst FindLeaf_loop.simps) simp
  with 0 show ?case by blast
next
  case (Suc h)
  let ?n = "pgs p"
  from Suc.prems(2) obtain i where i: "i < nat (cur_size ?n)"
      "k \<in> subtree_keys pgs h (snd (array ?n (int i)))" by auto
  note ch = subtree_child[OF Suc.prems(1) i(1)]
  from subtree_keys_bounds[OF ch i(2)]
  have b: "(if i = 0 then lo else fst (array ?n (int i))) \<le> k"
    "below (if int i + 1 < cur_size ?n then Some (fst (array ?n (int i + 1))) else hi) k"
    by simp_all
  have srt: "sorted_wrt (<) (map fst (entries ?n))" and s0: "fst (array ?n 0) \<le> lo"
    and nl: "\<not> IsLeafPage ?n"
    using Suc.prems(1) by simp_all
  have ge: "fst (array ?n (int i)) \<le> k"
    using b(1) s0 by (cases "i = 0") auto
  have nxt: "int i + 1 < cur_size ?n \<Longrightarrow> k < fst (array ?n (int i + 1))"
    using b(2) by (simp add: below_def)
  have "Internal_LookUp ?n k = Inr (snd (array ?n (int i)))"
    by (rule Internal_LookUp_child[OF srt _ _ ge nxt]) (use i(1) in simp_all)
  then have "FindLeaf_loop pgs k False False p =
             FindLeaf_loop pgs k False False (snd (array ?n (int i)))"
    using nl by (subst FindLeaf_loop.simps) simp
  with Suc.IH[OF ch i(2)] show ?case by simp
qed

text \<open>
  Where the search is sound. In a non-empty tree whose pages satisfy \<open>bplus_subtree\<close>
  below the root (of any height \<open>h\<close>), in particular with the key of slot 0 of every
  internal page at most the keys below the page, \<open>Insert(k, v)\<close> of a key \<open>k\<close> stored in
  one of the leaves returns false and the state after it is the state before it: every
  page, the root page id, the header page and the allocator are unchanged.
\<close>

lemma BPlusTree_Insert_present_bounded:
  assumes "\<not> IsEmpty t"
    and "bplus_subtree (tree_pages t) h (root_page_id t) lo None"
    and "k \<in> subtree_keys (tree_pages t) h (root_page_id t)"
  shows "BPlusTree_Insert t k v = Some (Inr (False, t))"
proof -
  from FindLeaf_loop_reaches[OF assms(2,3)] obtain l lo' hi' where
    l: "FindLeaf_loop (tree_pages t) k False False (root_page_id t) = Some (Inr l)"
       "bplus_subtree (tree_pages t) 0 l lo' hi'" "k \<in> subtree_keys (tree_pages t) 0 l"
    by blast
  have fl: "FindLeaf t k False False = Some (Inr l)"
    using assms(1) l(1) by (simp add: FindLeaf_def IsEmpty_def)
  have ins: "Leaf_Insert (tree_pages t l) k v = (tree_pages t l, GetSize (tree_pages t l))"
    by (rule Leaf_Insert_present) (use l(2,3) in simp_all)
  have "InsertIntoLeaf t k v = Some (Inr (False, t))"
    using fl ins by (simp add: InsertIntoLeaf_def Let_def)
  then show ?thesis using assms(1) by (simp add: BPlusTree_Insert_def)
qed

lemma tree3_subtree: "bplus_subtree (tree_pages tree3) 1 3 0 None"
  by (simp add: tree3_def root3_def entries_def IsLeafPage_def below_def zero_node_def eval_nat_numeral)

lemma BPlusTree_Insert_present_bounded_tree3:
  "\<not> IsEmpty tree3 \<and> bplus_subtree (tree_pages tree3) 1 (root_page_id tree3) 0 None \<and>
   3 \<in> subtree_keys (tree_pages tree3) 1 (root_page_id tree3) \<and>
   BPlusTree_Insert tree3 3 33 = Some (Inr (False, tree3))"
proof -
  have a: "\<not> IsEmpty tree3" by (simp add: IsEmpty_def tree3_def INVALID_PAGE_ID_def)
  have r: "root_page_id tree3 = 3" by (simp add: tree3_def)
  have b: "bplus_subtree (tree_pages tree3) 1 (root_page_id tree3) 0 None"
    using tree3_subtree r by simp
  have c: "3 \<in> subtree_keys (tree_pages tree3) 1 (root_page_id tree3)"
    by (simp add: tree3_def root3_def entries_def eval_nat_numeral del: set_upt)
  from BPlusTree_Insert_present_bounded[OF a b c, of 33] a b c show ?thesis by simp
qed

text \<open>The tree the code builds from the keys -5, -4, -3 is outside that case: the key
  of slot 0 of its root is 0, above the separator and above every key of the tree.\<close>

lemma tree_neg3_reached: "InsertFromFile tree0 [-5, -4, -3] = Some (Inr tree_neg3)"
  apply (simp add: tree_neg3_def tree0_def tree_defs page_defs zero_node_def Let_def run_simps root_neg3_def)
  apply (auto simp: fun_eq_iff)
  done

lemma tree_neg3_not_subtree:
  "\<not> bplus_subtree (tree_pages tree_neg3) h (root_page_id tree_neg3) lo hi"
proof (cases h)
  case 0
  then show ?thesis by (simp add: tree_neg3_def root_neg3_def IsLeafPage_def)
next
  case (Suc h')
  have "entries (tree_pages tree_neg3 (root_page_id tree_neg3)) = [(0, 1), (-4, 2)]"
    by (simp add: tree_neg3_def root_neg3_def entries_def eval_nat_numeral)
  then show ?thesis using Suc by simp
qed

text \<open>
  C6 (the code departs from it). \<open>tree_neg3\<close> is the tree that inserting -5, -4, -3 into
  the empty index builds: the leaf in page 1 holds -5, the leaf in page 2 holds -4 and
  -3. \<open>Insert(-5, 55)\<close> and \<open>Insert(-4, 44)\<close>, of keys that are present, do not return
  false: \<open>FindLeaf\<close> calls \<open>LookUp\<close> of the root, whose \<open>FindPos\<close> is 0 for both keys, and
  \<open>LookUp\<close> reads the slot before the array (the defect of C8). \<open>Insert(-3, 33)\<close>, whose
  key is found at the end of the root, returns false and changes nothing.
\<close>

theorem BPlusTree_Insert_duplicate_undefined:
  "InsertFromFile tree0 [-5, -4, -3] = Some (Inr tree_neg3) \<and>
   \<not> IsEmpty tree_neg3 \<and>
   entries (tree_pages tree_neg3 1) = [(-5, -5)] \<and>
   entries (tree_pages tree_neg3 2) = [(-4, -4), (-3, -3)] \<and>
   BPlusTree_Insert tree_neg3 (-5) 55 = Some (Inl UndefinedBehaviour) \<and>
   BPlusTree_Insert tree_neg3 (-4) 44 = Some (Inl UndefinedBehaviour) \<and>
   BPlusTree_Insert tree_neg3 (-3) 33 = Some (Inr (False, tree_neg3))"
proof -
  have a: "\<not> IsEmpty tree_neg3" by (simp add: IsEmpty_def tree_neg3_def INVALID_PAGE_ID_def)
  have b: "entries (tree_pages tree_neg3 1) = [(-5, -5)]"
    "entries (tree_pages tree_neg3 2) = [(-4, -4), (-3, -3)]"
    by (simp_all add: tree_neg3_def entries_def eval_nat_numeral)
  have c: "BPlusTree_Insert tree_neg3 (-5) 55 = Some (Inl UndefinedBehaviour)"
    by (simp add: tree_neg3_def root_neg3_def tree_defs page_defs Let_def run_simps)
  have d: "BPlusTree_Insert tree_neg3 (-4) 44 = Some (Inl UndefinedBehaviour)"
    by (simp add: tree_neg3_def root_neg3_def tree_defs page_defs Let_def run_simps)
  have e: "BPlusTree_Insert tree_neg3 (-3) 33 = Some (Inr (False, tree_neg3))"
    apply (simp add: tree_neg3_def root_neg3_def tree_defs page_defs Let_def run_simps)
    apply (auto simp: fun_eq_iff)
    done
  from tree_neg3_reached a b c d e show ?thesis by simp
qed

end
